theory Spec2Isabelle
  imports Main "HOL-Library.Monad_Syntax"
begin

section \<open>Data model of js/chess.js\<close>

text \<open>
  Piece types and colours are the strings the source compares with \<open>===\<close>
  (\<open>'pawn'\<close>, ..., \<open>'white'\<close>, \<open>'black'\<close>); only the six types and the two colours that
  \<open>createPieces\<close> spawns occur.  A board cell holds \<open>null\<close> or an object
  \<open>{ type, color, mesh }\<close>; the \<open>mesh\<close> is the handle of the rendered object and is
  not part of the rules, so a piece is its type and colour.
\<close>

datatype pieceType = Pawn | Knight | Bishop | Rook | Queen | King

datatype color = White | Black

record piece =
  type :: pieceType
  color :: color

text \<open>
  \<open>boardState[z][x]\<close>: an array of eight rows, each row an array.  Row \<open>z\<close> exists
  exactly for \<open>0 \<le> z < 8\<close>; indexing a missing row (\<open>undefined[x]\<close>) throws a
  TypeError.  Inside an existing row every integer index can be read (a missing entry is
  \<open>undefined\<close>, which the source treats like \<open>null\<close>) and written (JavaScript arrays
  grow).  So a board is a function from row and column to an optional piece, and the
  row check is written out at every access.

  A result of type \<open>'a option\<close> is \<open>Some v\<close> when the call returns \<open>v\<close>, and
  \<open>None\<close> when it does not return (an uncaught TypeError, or a loop that never ends).
\<close>

type_synonym board = "int \<Rightarrow> int \<Rightarrow> piece option"

record move =
  fromX :: int
  fromZ :: int
  toX :: int
  toZ :: int

definition rowExists :: "int \<Rightarrow> bool" where
  "rowExists z = (0 \<le> z \<and> z < 8)"

definition at :: "board \<Rightarrow> int \<Rightarrow> int \<Rightarrow> piece option option" where
  \<comment> \<open>\<open>bs[z][x]\<close>\<close>
  "at bs z x = (if rowExists z then Some (bs z x) else None)"

definition atGuarded :: "board \<Rightarrow> int \<Rightarrow> int \<Rightarrow> piece option" where
  \<comment> \<open>\<open>bs[z] && bs[z][x]\<close>\<close>
  "atGuarded bs z x = (if rowExists z then bs z x else None)"

definition setAt :: "board \<Rightarrow> int \<Rightarrow> int \<Rightarrow> piece option \<Rightarrow> board option" where
  \<comment> \<open>\<open>bs[z][x] = v\<close>\<close>
  "setAt bs z x v = (if rowExists z then Some (bs(z := (bs z)(x := v))) else None)"

definition isInside :: "int \<Rightarrow> int \<Rightarrow> bool" where
  "isInside x z = (x \<ge> 0 \<and> x < 8 \<and> z \<ge> 0 \<and> z < 8)"

definition squares :: "(int \<times> int) list" where
  \<comment> \<open>\<open>for (let z = 0; z < 8; z++) for (let x = 0; x < 8; x++)\<close>: the pairs \<open>(z, x)\<close> in loop order\<close>
  "squares = concat (map (\<lambda>z. map (\<lambda>x. (z, x)) [0..7]) [0..7])"

primrec forEachM :: "('a \<Rightarrow> 's \<Rightarrow> 's option) \<Rightarrow> 'a list \<Rightarrow> 's \<Rightarrow> 's option" where
  \<comment> \<open>a loop whose body may throw, over the elements in order\<close>
  "forEachM f [] s = Some s"
| "forEachM f (a # as) s = (case f a s of None \<Rightarrow> None | Some s' \<Rightarrow> forEachM f as s')"

definition emptyBoard :: board where
  \<comment> \<open>\<open>Array(8).fill().map(() => Array(8).fill(null))\<close>\<close>
  "emptyBoard = (\<lambda>z x. None)"

definition cloneBoard :: "board \<Rightarrow> board" where
  "cloneBoard bs =
     fold (\<lambda>(z, x) c. case bs z x of
                         None \<Rightarrow> c
                       | Some p \<Rightarrow> c(z := (c z)(x := Some \<lparr>type = type p, color = color p\<rparr>)))
          squares emptyBoard"

section \<open>Pseudo-legal moves as a predicate\<close>

partial_function (option) isPathClear_loop ::
  "board \<Rightarrow> int \<Rightarrow> int \<Rightarrow> int \<Rightarrow> int \<Rightarrow> int \<Rightarrow> int \<Rightarrow> bool option" where
  \<comment> \<open>\<open>while (x !== tX || z !== tZ) { if (bs[z][x]) return false; x += sx; z += sz; } return true;\<close>\<close>
  "isPathClear_loop bs sx sz tX tZ x z =
     (if x \<noteq> tX \<or> z \<noteq> tZ then
        do { c \<leftarrow> at bs z x;
             if c \<noteq> None then Some False
             else isPathClear_loop bs sx sz tX tZ (x + sx) (z + sz) }
      else Some True)"

declare isPathClear_loop.simps [code]

definition isPathClear :: "board \<Rightarrow> int \<Rightarrow> int \<Rightarrow> int \<Rightarrow> int \<Rightarrow> bool option" where
  "isPathClear bs fX fZ tX tZ =
     (let sx = sgn (tX - fX); sz = sgn (tZ - fZ)
      in isPathClear_loop bs sx sz tX tZ (fX + sx) (fZ + sz))"

definition sameColor :: "piece option \<Rightarrow> piece \<Rightarrow> bool" where
  \<comment> \<open>\<open>target && target.color === piece.color\<close>\<close>
  "sameColor target p = (case target of None \<Rightarrow> False | Some t \<Rightarrow> color t = color p)"

definition otherColor :: "piece option \<Rightarrow> piece \<Rightarrow> bool" where
  \<comment> \<open>\<open>target && target.color !== piece.color\<close>\<close>
  "otherColor target p = (case target of None \<Rightarrow> False | Some t \<Rightarrow> color t \<noteq> color p)"

definition isPseudoLegal :: "move \<Rightarrow> board \<Rightarrow> bool \<Rightarrow> bool option" where
  "isPseudoLegal mv bs forCheck =
     (case atGuarded bs (fromZ mv) (fromX mv) of
        None \<Rightarrow> Some False
      | Some p \<Rightarrow>
          let dx = toX mv - fromX mv; dz = toZ mv - fromZ mv;
              adx = \<bar>dx\<bar>; adz = \<bar>dz\<bar>;
              target = atGuarded bs (toZ mv) (toX mv)
          in if \<not> forCheck \<and> sameColor target p then Some False
             else case type p of
               Pawn \<Rightarrow>
                 let dir = (if color p = White then - 1 else 1);
                     start = (if color p = White then 6 else 1)
                 in if dx = 0 then
                      (if dz = dir \<and> target = None then Some True
                       else if dz = 2 * dir \<and> fromZ mv = start \<and> target = None then
                         do { mid \<leftarrow> at bs (fromZ mv + dir) (fromX mv);
                              Some (mid = None) }
                       else Some False)
                    else if \<bar>dx\<bar> = 1 \<and> dz = dir then Some (otherColor target p)
                    else Some False
             | Rook \<Rightarrow>
                 if dx \<noteq> 0 \<and> dz \<noteq> 0 then Some False
                 else isPathClear bs (fromX mv) (fromZ mv) (toX mv) (toZ mv)
             | Bishop \<Rightarrow>
                 if adx \<noteq> adz then Some False
                 else isPathClear bs (fromX mv) (fromZ mv) (toX mv) (toZ mv)
             | Queen \<Rightarrow>
                 if dx = 0 \<or> dz = 0 \<or> adx = adz
                 then isPathClear bs (fromX mv) (fromZ mv) (toX mv) (toZ mv)
                 else Some False
             | Knight \<Rightarrow> Some ((adx = 1 \<and> adz = 2) \<or> (adx = 2 \<and> adz = 1))
             | King \<Rightarrow> Some (max adx adz = 1))"

section \<open>Simulation, check detection, legality\<close>

definition applyMoveOnClone :: "board \<Rightarrow> move \<Rightarrow> board option" where
  \<comment> \<open>The piece object moves from one cell to the other; after \<open>bs[from] = null\<close> the
      destination cell is the only one that holds it, unless both cells are the same,
      where \<open>bs[to].type = 'queen'\<close> writes to \<open>null\<close> and throws.\<close>
  "applyMoveOnClone bs mv =
     do { p \<leftarrow> at bs (fromZ mv) (fromX mv);
          bs1 \<leftarrow> setAt bs (toZ mv) (toX mv) p;
          bs2 \<leftarrow> setAt bs1 (fromZ mv) (fromX mv) None;
          if (case p of None \<Rightarrow> False | Some q \<Rightarrow> type q = Pawn) \<and> (toZ mv = 0 \<or> toZ mv = 7)
          then (case bs2 (toZ mv) (toX mv) of
                  None \<Rightarrow> None
                | Some q \<Rightarrow> setAt bs2 (toZ mv) (toX mv) (Some (q\<lparr>type := Queen\<rparr>)))
          else Some bs2 }"

definition findKing :: "board \<Rightarrow> color \<Rightarrow> int \<times> int" where
  \<comment> \<open>the first loop of \<open>isKingInCheck\<close>: \<open>(kx, kz)\<close>, \<open>(-1, -1)\<close> when no king is found\<close>
  "findKing bs player =
     fold (\<lambda>(z, x) (kx, kz).
             case bs z x of
               None \<Rightarrow> (kx, kz)
             | Some p \<Rightarrow> if type p = King \<and> color p = player then (x, z) else (kx, kz))
          squares (- 1, - 1)"

fun attackedFrom :: "board \<Rightarrow> color \<Rightarrow> int \<Rightarrow> int \<Rightarrow> (int \<times> int) list \<Rightarrow> bool option" where
  \<comment> \<open>the second loop of \<open>isKingInCheck\<close>, over the squares still to visit\<close>
  "attackedFrom bs opponent kx kz [] = Some False"
| "attackedFrom bs opponent kx kz ((z, x) # rest) =
     (case bs z x of
        None \<Rightarrow> attackedFrom bs opponent kx kz rest
      | Some p \<Rightarrow>
          if color p = opponent then
            do { hit \<leftarrow> isPseudoLegal \<lparr>fromX = x, fromZ = z, toX = kx, toZ = kz\<rparr> bs True;
                 if hit then Some True else attackedFrom bs opponent kx kz rest }
          else attackedFrom bs opponent kx kz rest)"

definition isKingInCheck :: "board \<Rightarrow> color \<Rightarrow> bool option" where
  "isKingInCheck bs player =
     (let (kx, kz) = findKing bs player
      in if kx = - 1 then Some True
         else let opponent = (if player = White then Black else White)
              in attackedFrom bs opponent kx kz squares)"

definition isLegalMove :: "board \<Rightarrow> move \<Rightarrow> color \<Rightarrow> bool option" where
  \<comment> \<open>the first argument is the global \<open>boardState\<close>, which the source reads directly\<close>
  "isLegalMove live mv player =
     do { from \<leftarrow> at live (fromZ mv) (fromX mv);
          if (case from of None \<Rightarrow> True | Some f \<Rightarrow> color f \<noteq> player) then Some False
          else do {
            ok \<leftarrow> isPseudoLegal mv live False;
            if \<not> ok then Some False
            else do {
              bsClone \<leftarrow> applyMoveOnClone (cloneBoard live) mv;
              inCheck \<leftarrow> isKingInCheck bsClone player;
              Some (\<not> inCheck) } } }"

section \<open>Pseudo-legal moves as a list\<close>

text \<open>
  The source declares \<open>generatePseudoMoves\<close> twice with the same body; the later
  declaration is the one in force.  A generated move \<open>{ toX, toZ }\<close> is the pair
  \<open>(toX, toZ)\<close>.
\<close>

definition enemyAt :: "board \<Rightarrow> int \<Rightarrow> int \<Rightarrow> color \<Rightarrow> bool" where
  \<comment> \<open>\<open>bs[nz][nx] && bs[nz][nx].color !== color\<close>\<close>
  "enemyAt bs nz nx col = (case bs nz nx of None \<Rightarrow> False | Some q \<Rightarrow> color q \<noteq> col)"

definition freeOrEnemy :: "board \<Rightarrow> int \<Rightarrow> int \<Rightarrow> color \<Rightarrow> bool" where
  \<comment> \<open>\<open>!bs[nz][nx] || bs[nz][nx].color !== color\<close>\<close>
  "freeOrEnemy bs nz nx col = (case bs nz nx of None \<Rightarrow> True | Some q \<Rightarrow> color q \<noteq> col)"

partial_function (option) slide ::
  "board \<Rightarrow> color \<Rightarrow> int \<Rightarrow> int \<Rightarrow> int \<Rightarrow> int \<Rightarrow> (int \<times> int) list \<Rightarrow> (int \<times> int) list option" where
  \<comment> \<open>\<open>while (isInside(nx, nz)) { if (!bs[nz][nx]) moves.push(..); else { if (..) moves.push(..); break; } nx += dx; nz += dz; }\<close>\<close>
  "slide bs col dx dz nx nz moves =
     (if isInside nx nz then
        (if bs nz nx = None then slide bs col dx dz (nx + dx) (nz + dz) (moves @ [(nx, nz)])
         else Some (if enemyAt bs nz nx col then moves @ [(nx, nz)] else moves))
      else Some moves)"

declare slide.simps [code]

definition knightOffsets :: "(int \<times> int) list" where
  "knightOffsets = [(1, 2), (2, 1), (- 1, 2), (- 2, 1), (1, - 2), (2, - 1), (- 1, - 2), (- 2, - 1)]"

definition rookDirs :: "(int \<times> int) list" where
  "rookDirs = [(1, 0), (- 1, 0), (0, 1), (0, - 1)]"

definition bishopDirs :: "(int \<times> int) list" where
  "bishopDirs = [(1, 1), (1, - 1), (- 1, 1), (- 1, - 1)]"

definition queenDirs :: "(int \<times> int) list" where
  "queenDirs = [(1, 0), (- 1, 0), (0, 1), (0, - 1), (1, 1), (1, - 1), (- 1, 1), (- 1, - 1)]"

definition kingOffsets :: "(int \<times> int) list" where
  \<comment> \<open>\<open>for (let dx = -1; dx <= 1; dx++) for (let dz = -1; dz <= 1; dz++)\<close>\<close>
  "kingOffsets = concat (map (\<lambda>dx. map (\<lambda>dz. (dx, dz)) [- 1..1]) [- 1..1])"

definition stepTo :: "board \<Rightarrow> color \<Rightarrow> int \<Rightarrow> int \<Rightarrow> int \<times> int \<Rightarrow> (int \<times> int) list \<Rightarrow> (int \<times> int) list" where
  \<comment> \<open>the body shared by the knight's \<open>forEach\<close> and the king's loops\<close>
  "stepTo bs col x z = (\<lambda>(dx, dz) moves.
     let nx = x + dx; nz = z + dz
     in if isInside nx nz \<and> freeOrEnemy bs nz nx col then moves @ [(nx, nz)] else moves)"

definition generatePseudoMoves :: "int \<Rightarrow> int \<Rightarrow> board \<Rightarrow> (int \<times> int) list option" where
  "generatePseudoMoves x z bs =
     do { cell \<leftarrow> at bs z x;
          case cell of
            None \<Rightarrow> Some []
          | Some p \<Rightarrow>
              let t = type p; col = color p; dir = (if col = White then - 1 else 1)
              in if t = Pawn then
                   let moves1 = (if isInside x (z + dir) \<and> bs (z + dir) x = None
                                 then [(x, z + dir)] else []);
                       start = (if col = White then 6 else 1);
                       moves2 = (if z = start \<and> bs (z + dir) x = None \<and> bs (z + 2 * dir) x = None
                                 then moves1 @ [(x, z + 2 * dir)] else moves1)
                   in Some (fold (\<lambda>(nx, nz) moves.
                                    if isInside nx nz \<and> enemyAt bs nz nx col
                                    then moves @ [(nx, nz)] else moves)
                                 [(x - 1, z + dir), (x + 1, z + dir)] moves2)
                 else if t = Knight then Some (fold (stepTo bs col x z) knightOffsets [])
                 else if t = Rook \<or> t = Bishop \<or> t = Queen then
                   let dirs = (if t = Rook then rookDirs
                               else if t = Bishop then bishopDirs else queenDirs)
                   in forEachM (\<lambda>(dx, dz) moves. slide bs col dx dz (x + dx) (z + dz) moves) dirs []
                 else if t = King then
                   Some (fold (\<lambda>(dx, dz) moves.
                                 if dx = 0 \<and> dz = 0 then moves
                                 else stepTo bs col x z (dx, dz) moves)
                              kingOffsets [])
                 else Some [] }"

definition allLegalMovesFor :: "board \<Rightarrow> color \<Rightarrow> move list option" where
  \<comment> \<open>the first argument is the global \<open>boardState\<close>\<close>
  "allLegalMovesFor live player =
     forEachM (\<lambda>(z, x) moves.
                 case live z x of
                   None \<Rightarrow> Some moves
                 | Some p \<Rightarrow>
                     if color p \<noteq> player then Some moves
                     else do {
                       pseudo \<leftarrow> generatePseudoMoves x z live;
                       forEachM (\<lambda>(tx, tz) moves.
                                   do { let m = \<lparr>fromX = x, fromZ = z, toX = tx, toZ = tz\<rparr>;
                                        ok \<leftarrow> isLegalMove live m player;
                                        Some (if ok then moves @ [m] else moves) })
                                pseudo moves })
              squares []"

section \<open>Engine state, move execution, undo, end of game\<close>

datatype phase = Playing | Ended

datatype status = GameInProgress | Checkmated color | Stalemate
  \<comment> \<open>\<open>statusBox.textContent\<close>: \<open>'Game in Progress'\<close>, \<open>'White is checkmated!'\<close> or
      \<open>'Black is checkmated!'\<close>, \<open>'Stalemate'\<close>\<close>

record entry =
  \<comment> \<open>\<open>{ move, captured, mover }\<close>\<close>
  move :: move
  cap :: "piece option"
  mover :: color

record engine =
  boardState :: board
  currentPlayer :: color
  gameState :: phase
  moveHistory :: "entry list"
  captured :: "color \<Rightarrow> pieceType list"
  statusText :: status

definition opposite :: "color \<Rightarrow> color" where
  \<comment> \<open>\<open>c === 'white' ? 'black' : 'white'\<close>\<close>
  "opposite c = (if c = White then Black else White)"

definition evaluateGameState :: "engine \<Rightarrow> engine option" where
  "evaluateGameState st =
     (let opponent = currentPlayer st in
      do { legal \<leftarrow> allLegalMovesFor (boardState st) opponent;
           inCheck \<leftarrow> isKingInCheck (boardState st) opponent;
           Some (if length legal = 0
                 then st\<lparr>gameState := Ended,
                         statusText := (if inCheck then Checkmated opponent else Stalemate)\<rparr>
                 else st\<lparr>statusText := GameInProgress\<rparr>) })"

definition performMove :: "engine \<Rightarrow> move \<Rightarrow> engine option" where
  \<comment> \<open>The toasts, the mesh updates and the deferred \<open>setTimeout(makeBestAIMove, 220)\<close>
      are presentation and scheduling; \<open>from.mesh\<close> throws when the source cell is empty.\<close>
  "performMove st mv =
     do { from \<leftarrow> at (boardState st) (fromZ mv) (fromX mv);
          target \<leftarrow> at (boardState st) (toZ mv) (toX mv);
          let mover = currentPlayer st;
          let hist = moveHistory st @
                [\<lparr>move = mv,
                  cap = (case target of None \<Rightarrow> None
                         | Some t \<Rightarrow> Some \<lparr>type = type t, color = color t\<rparr>),
                  mover = mover\<rparr>];
          let capt = (case target of None \<Rightarrow> captured st
                      | Some t \<Rightarrow> (captured st)(mover := captured st mover @ [type t]));
          bs1 \<leftarrow> (case target of None \<Rightarrow> Some (boardState st)
                  | Some t \<Rightarrow> setAt (boardState st) (toZ mv) (toX mv) None);
          f \<leftarrow> from;
          bs2 \<leftarrow> setAt bs1 (toZ mv) (toX mv) (Some \<lparr>type = type f, color = color f\<rparr>);
          bs3 \<leftarrow> setAt bs2 (fromZ mv) (fromX mv) None;
          bs4 \<leftarrow> (if type f = Pawn \<and> (toZ mv = 0 \<or> toZ mv = 7)
                  then (case bs3 (toZ mv) (toX mv) of
                          None \<Rightarrow> None
                        | Some q \<Rightarrow> setAt bs3 (toZ mv) (toX mv) (Some (q\<lparr>type := Queen\<rparr>)))
                  else Some bs3);
          evaluateGameState
            (st\<lparr>boardState := bs4, currentPlayer := opposite (currentPlayer st),
                moveHistory := hist, captured := capt\<rparr>) }"

definition spawnPiece :: "board \<Rightarrow> pieceType \<Rightarrow> color \<Rightarrow> int \<Rightarrow> int \<Rightarrow> board option" where
  "spawnPiece bs t c x z = setAt bs z x (Some \<lparr>type = t, color = c\<rparr>)"

definition undoMove :: "engine \<Rightarrow> engine option" where
  "undoMove st =
     (if length (moveHistory st) = 0 then Some st
      else
        let lst = last (moveHistory st); hist = butlast (moveHistory st);
            m = move lst; mover = mover lst
        in do { moved \<leftarrow> at (boardState st) (toZ m) (toX m);
                bs1 \<leftarrow> setAt (boardState st) (fromZ m) (fromX m) moved;
                bs2 \<leftarrow> setAt bs1 (toZ m) (toX m) None;
                bs3 \<leftarrow> (case cap lst of None \<Rightarrow> Some bs2
                        | Some c \<Rightarrow> spawnPiece bs2 (type c) (color c) (toX m) (toZ m));
                let capt = (case cap lst of None \<Rightarrow> captured st
                            | Some c \<Rightarrow>
                                if length (captured st mover) \<noteq> 0
                                then (captured st)(mover := butlast (captured st mover))
                                else captured st);
                Some (st\<lparr>boardState := bs3, currentPlayer := mover, gameState := Playing,
                         moveHistory := hist, captured := capt,
                         statusText := GameInProgress\<rparr>) })"

definition attemptMove :: "engine \<Rightarrow> move \<Rightarrow> (engine \<times> bool) option" where
  \<comment> \<open>The branch of \<open>onPointerDown\<close> that submits a move (the handler has returned before
      when \<open>gameState !== 'playing'\<close>).  The flag tells whether the move was performed;
      when it was not, the source shows the toast \<open>'Invalid move'\<close>.\<close>
  "attemptMove st mv =
     do { ok \<leftarrow> isLegalMove (boardState st) mv (currentPlayer st);
          if ok then do { st' \<leftarrow> performMove st mv; Some (st', True) }
          else Some (st, False) }"

definition backRow :: "pieceType list" where
  \<comment> \<open>the array \<open>back\<close> of \<open>createPieces\<close>\<close>
  "backRow = [Rook, Knight, Bishop, Queen, King, Bishop, Knight, Rook]"

definition createFile :: "nat \<Rightarrow> board \<Rightarrow> board" where
  \<comment> \<open>one round of the loop of \<open>createPieces\<close>: the four \<open>spawnPiece\<close> calls for file \<open>i\<close>,
      all on rows that exist\<close>
  "createFile i bs =
     (let bs = bs(0 := (bs 0)(int i := Some \<lparr>type = backRow ! i, color = Black\<rparr>));
          bs = bs(1 := (bs 1)(int i := Some \<lparr>type = Pawn, color = Black\<rparr>));
          bs = bs(6 := (bs 6)(int i := Some \<lparr>type = Pawn, color = White\<rparr>));
          bs = bs(7 := (bs 7)(int i := Some \<lparr>type = backRow ! i, color = White\<rparr>))
      in bs)"

definition initialBoard :: board where
  \<comment> \<open>\<open>initBoardState(); createPieces();\<close>\<close>
  "initialBoard = fold createFile [0..<8] emptyBoard"

definition initialState :: engine where
  \<comment> \<open>the state after \<open>startup\<close>, and after \<open>resetGame\<close>\<close>
  "initialState =
     \<lparr>boardState = initialBoard, currentPlayer = White, gameState = Playing,
      moveHistory = [], captured = (\<lambda>c. []), statusText = GameInProgress\<rparr>"

section \<open>The automated opponent\<close>

definition PIECE_VALUES :: "pieceType \<Rightarrow> int" where
  "PIECE_VALUES t = (case t of Pawn \<Rightarrow> 100 | Knight \<Rightarrow> 320 | Bishop \<Rightarrow> 330
                     | Rook \<Rightarrow> 500 | Queen \<Rightarrow> 900 | King \<Rightarrow> 20000)"

definition evaluateMaterial :: "board \<Rightarrow> int" where
  "evaluateMaterial bs =
     fold (\<lambda>(z, x) score.
             case bs z x of
               None \<Rightarrow> score
             | Some p \<Rightarrow> score + (if color p = White then 1 else - 1) * PIECE_VALUES (type p))
          squares 0"

datatype jsnum = NegInfinity | Num int | Infinity
  \<comment> \<open>the numbers the search compares: material sums, \<open>-Infinity\<close> and \<open>Infinity\<close>\<close>

fun jsLess :: "jsnum \<Rightarrow> jsnum \<Rightarrow> bool" where
  "jsLess (Num a) (Num b) = (a < b)"
| "jsLess NegInfinity b = (b \<noteq> NegInfinity)"
| "jsLess a Infinity = (a \<noteq> Infinity)"
| "jsLess a b = False"

definition jsMax :: "jsnum \<Rightarrow> jsnum \<Rightarrow> jsnum" where
  \<comment> \<open>\<open>Math.max(a, b)\<close>\<close>
  "jsMax a b = (if jsLess a b then b else a)"

definition opponentMoves :: "board \<Rightarrow> board \<Rightarrow> move list option" where
  \<comment> \<open>the loop of \<open>makeBestAIMove\<close> that fills \<open>oppMoves\<close>: candidates are generated on
      \<open>clone\<close> and filtered by \<open>isLegalMove\<close>, which reads the global \<open>boardState\<close>\<close>
  "opponentMoves live clone =
     forEachM (\<lambda>(z, x) oppMoves.
                 case clone z x of
                   None \<Rightarrow> Some oppMoves
                 | Some p \<Rightarrow>
                     if color p = White then
                       do { pms \<leftarrow> generatePseudoMoves x z clone;
                            forEachM (\<lambda>(tx, tz) oppMoves.
                                        do { let cand = \<lparr>fromX = x, fromZ = z, toX = tx, toZ = tz\<rparr>;
                                             ok \<leftarrow> isLegalMove live cand White;
                                             Some (if ok then oppMoves @ [cand] else oppMoves) })
                                     pms oppMoves }
                     else Some oppMoves)
              squares []"

definition worstFor :: "board \<Rightarrow> move \<Rightarrow> jsnum option" where
  \<comment> \<open>the value of \<open>worst\<close> that the body of \<open>moves.forEach\<close> computes for the move \<open>m\<close>\<close>
  "worstFor live m =
     do { clone \<leftarrow> applyMoveOnClone (cloneBoard live) m;
          oppMoves \<leftarrow> opponentMoves live clone;
          if length oppMoves = 0 then Some (Num (evaluateMaterial clone))
          else forEachM (\<lambda>om worst.
                           do { c2 \<leftarrow> applyMoveOnClone (cloneBoard clone) om;
                                Some (jsMax worst (Num (evaluateMaterial c2))) })
                        oppMoves NegInfinity }"

definition bestOf :: "board \<Rightarrow> move list \<Rightarrow> (move option \<times> jsnum) option" where
  \<comment> \<open>\<open>moves.forEach\<close> with the variables \<open>best\<close> and \<open>bestScore\<close>\<close>
  "bestOf live moves =
     forEachM (\<lambda>m (best, bestScore).
                 do { worst \<leftarrow> worstFor live m;
                      Some (if jsLess worst bestScore then (Some m, worst) else (best, bestScore)) })
              moves (None, Infinity)"

definition chooseAIMove :: "board \<Rightarrow> move option option" where
  \<comment> \<open>the move that \<open>makeBestAIMove\<close> hands to \<open>performMove\<close>, if any\<close>
  "chooseAIMove live =
     do { moves \<leftarrow> allLegalMovesFor live Black;
          if length moves = 0 then Some None
          else do { (best, bestScore) \<leftarrow> bestOf live moves; Some best } }"

definition makeBestAIMove :: "engine \<Rightarrow> engine option" where
  "makeBestAIMove st =
     do { best \<leftarrow> chooseAIMove (boardState st);
          case best of None \<Rightarrow> Some st | Some b \<Rightarrow> performMove st b }"

section \<open>Basic facts about the board loops\<close>

lemma set_squares: "set squares = {(z, x). isInside x z}"
  by (auto simp: squares_def image_iff isInside_def)

lemma distinct_squares: "distinct squares"
  unfolding squares_def
  by (auto intro!: distinct_concat simp: distinct_map inj_on_def)

lemma piece_rebuild: "\<lparr>type = type p, color = color p\<rparr> = (p::piece)"
  by simp

lemma cloneBoard_fold:
  "fold (\<lambda>(z, x) c. case bs z x of None \<Rightarrow> c
                     | Some p \<Rightarrow> c(z := (c z)(x := Some \<lparr>type = type p, color = color p\<rparr>))) sq c0 z x
   = (if (z, x) \<in> set sq \<and> bs z x \<noteq> None then bs z x else c0 z x)"
  by (induction sq arbitrary: c0) (auto split: option.splits if_splits)

lemma cloneBoard_apply: "cloneBoard bs z x = (if isInside x z then bs z x else None)"
  unfolding cloneBoard_def cloneBoard_fold by (auto simp: set_squares emptyBoard_def)

definition pathFree :: "board \<Rightarrow> int \<Rightarrow> int \<Rightarrow> int \<Rightarrow> int \<Rightarrow> bool" where
  "pathFree bs fX fZ tX tZ =
     (\<forall>k. 0 < k \<and> k < max \<bar>tX - fX\<bar> \<bar>tZ - fZ\<bar>
          \<longrightarrow> bs (fZ + k * sgn (tZ - fZ)) (fX + k * sgn (tX - fX)) = None)"

lemma isPathClear_loop_steps:
  assumes "sx \<noteq> 0 \<or> sz \<noteq> 0"
    and "\<forall>k<n. rowExists (z + int k * sz)"
  shows "isPathClear_loop bs sx sz (x + int n * sx) (z + int n * sz) x z
         = Some (\<forall>k<n. bs (z + int k * sz) (x + int k * sx) = None)"
  using assms(2)
proof (induction n arbitrary: x z)
  case 0
  show ?case by (subst isPathClear_loop.simps) simp
next
  case (Suc n)
  have row0: "rowExists z" using Suc.prems by force
  have rows: "\<forall>k<n. rowExists (z + sz + int k * sz)"
  proof (intro allI impI)
    fix k assume "k < n"
    then have "rowExists (z + int (Suc k) * sz)" using Suc.prems by blast
    then show "rowExists (z + sz + int k * sz)" by (simp add: algebra_simps)
  qed
  have tgt: "x + sx + int n * sx = x + int (Suc n) * sx" "z + sz + int n * sz = z + int (Suc n) * sz"
    by (simp_all add: algebra_simps)
  have moved: "x \<noteq> x + int (Suc n) * sx \<or> z \<noteq> z + int (Suc n) * sz"
    using assms(1) by auto
  have shift: "(\<forall>k<Suc n. bs (z + int k * sz) (x + int k * sx) = None)
               = (bs z x = None \<and> (\<forall>k<n. bs (z + sz + int k * sz) (x + sx + int k * sx) = None))"
  proof -
    have "\<And>k. bs (z + sz + int k * sz) (x + sx + int k * sx) = bs (z + int (Suc k) * sz) (x + int (Suc k) * sx)"
      by (simp add: algebra_simps)
    then show ?thesis
      by (simp add: All_less_Suc2 del: of_nat_Suc) 
  qed
  show ?case
    apply (subst isPathClear_loop.simps)
    using moved row0 Suc.IH[OF rows, of "x + sx"] 
    apply (simp only: tgt shift)
    apply (auto simp: at_def)
    done
qed

section \<open>The path loop and the move predicate on rows that exist\<close>

lemma sgn_cases_int:
  fixes a :: int
  shows "(a = 0 \<and> sgn a = 0) \<or> (0 < a \<and> sgn a = 1) \<or> (a < 0 \<and> sgn a = - 1)"
  by (auto simp: sgn_if)

lemma aligned_target:
  fixes dx dz :: int
  assumes "dx = 0 \<or> dz = 0 \<or> \<bar>dx\<bar> = \<bar>dz\<bar>"
  shows "dx = max \<bar>dx\<bar> \<bar>dz\<bar> * sgn dx \<and> dz = max \<bar>dx\<bar> \<bar>dz\<bar> * sgn dz"
  using sgn_cases_int[of dx] sgn_cases_int[of dz] assms
  by (elim disjE conjE) simp_all

lemma rows_between:
  assumes "rowExists fZ" "rowExists (fZ + d * sz)" "0 < j" "j < d" "sz = 0 \<or> sz = 1 \<or> sz = - 1"
  shows "rowExists (fZ + j * sz)"
  using assms unfolding rowExists_def by auto

lemma isPathClear_aligned:
  assumes rows: "rowExists fZ" "rowExists tZ"
    and al: "tX - fX = 0 \<or> tZ - fZ = 0 \<or> \<bar>tX - fX\<bar> = \<bar>tZ - fZ\<bar>"
  shows "isPathClear bs fX fZ tX tZ = Some (pathFree bs fX fZ tX tZ)"
proof (cases "tX = fX \<and> tZ = fZ")
  case True
  then show ?thesis
    unfolding isPathClear_def pathFree_def
    by (subst isPathClear_loop.simps) auto
next
  case False
  define sx where "sx = sgn (tX - fX)"
  define sz where "sz = sgn (tZ - fZ)"
  define d where "d = max \<bar>tX - fX\<bar> \<bar>tZ - fZ\<bar>"
  have dpos: "0 < d" using False unfolding d_def by auto
  have "tX - fX = d * sx \<and> tZ - fZ = d * sz"
    unfolding d_def sx_def sz_def by (rule aligned_target[OF al])
  then have tx: "tX = fX + d * sx" and tz: "tZ = fZ + d * sz" by linarith+
  have nz: "sx \<noteq> 0 \<or> sz \<noteq> 0"
    using False sgn_cases_int[of "tX - fX"] sgn_cases_int[of "tZ - fZ"]
    unfolding sx_def sz_def by auto
  define n where "n = nat (d - 1)"
  have dn: "d = int n + 1" using dpos unfolding n_def by simp
  have szb: "sz = 0 \<or> sz = 1 \<or> sz = - 1"
    using sgn_cases_int[of "tZ - fZ"] unfolding sz_def by auto
  have rws: "\<forall>k<n. rowExists (fZ + sz + int k * sz)"
  proof (intro allI impI)
    fix k assume "k < n"
    then have "0 < int k + 1" "int k + 1 < d" using dn by simp_all
    from rows_between[OF rows(1) rows(2)[unfolded tz] this szb]
    show "rowExists (fZ + sz + int k * sz)" by (simp add: algebra_simps)
  qed
  have e1: "fX + sx + int n * sx = tX" "fZ + sz + int n * sz = tZ"
    unfolding tx tz dn by (simp_all add: algebra_simps)
  have run: "isPathClear_loop bs sx sz tX tZ (fX + sx) (fZ + sz)
        = Some (\<forall>k<n. bs (fZ + sz + int k * sz) (fX + sx + int k * sx) = None)"
    using isPathClear_loop_steps[OF nz rws, of bs "fX + sx"] unfolding e1 .
  have same: "(\<forall>k<n. bs (fZ + sz + int k * sz) (fX + sx + int k * sx) = None)
                 = pathFree bs fX fZ tX tZ"
  proof
    assume h: "\<forall>k<n. bs (fZ + sz + int k * sz) (fX + sx + int k * sx) = None"
    show "pathFree bs fX fZ tX tZ"
      unfolding pathFree_def d_def[symmetric] sx_def[symmetric] sz_def[symmetric]
    proof (intro allI impI)
      fix k :: int assume k: "0 < k \<and> k < d"
      then have "nat (k - 1) < n" using dn by auto
      from h[rule_format, OF this] k
      show "bs (fZ + k * sz) (fX + k * sx) = None"
        by (simp add: algebra_simps)
    qed
  next
    assume h: "pathFree bs fX fZ tX tZ"
    show "\<forall>k<n. bs (fZ + sz + int k * sz) (fX + sx + int k * sx) = None"
    proof (intro allI impI)
      fix k assume "k < n"
      then have "0 < int k + 1 \<and> int k + 1 < d"
        using dn by auto
      from h[unfolded pathFree_def d_def[symmetric] sx_def[symmetric] sz_def[symmetric], rule_format, OF this]
      show "bs (fZ + sz + int k * sz) (fX + sx + int k * sx) = None"
        by (simp add: algebra_simps)
    qed
  qed
  show ?thesis
    unfolding isPathClear_def Let_def sx_def[symmetric] sz_def[symmetric] run same ..
qed

definition pseudoOK :: "move \<Rightarrow> board \<Rightarrow> bool \<Rightarrow> bool" where
  \<comment> \<open>the value of \<open>isPseudoLegal\<close> on a move whose rows exist, with the path loop replaced
      by its meaning\<close>
  "pseudoOK mv bs forCheck =
     (case bs (fromZ mv) (fromX mv) of
        None \<Rightarrow> False
      | Some p \<Rightarrow>
          let dx = toX mv - fromX mv; dz = toZ mv - fromZ mv;
              target = bs (toZ mv) (toX mv);
              dir = (if color p = White then - 1 else 1);
              start = (if color p = White then 6 else 1);
              free = pathFree bs (fromX mv) (fromZ mv) (toX mv) (toZ mv)
          in (forCheck \<or> \<not> sameColor target p) \<and>
             (case type p of
                Pawn \<Rightarrow> (dx = 0 \<and> target = None \<and>
                           (dz = dir \<or> (dz = 2 * dir \<and> fromZ mv = start
                                        \<and> bs (fromZ mv + dir) (fromX mv) = None)))
                        \<or> (\<bar>dx\<bar> = 1 \<and> dz = dir \<and> otherColor target p)
              | Rook \<Rightarrow> (dx = 0 \<or> dz = 0) \<and> free
              | Bishop \<Rightarrow> \<bar>dx\<bar> = \<bar>dz\<bar> \<and> free
              | Queen \<Rightarrow> (dx = 0 \<or> dz = 0 \<or> \<bar>dx\<bar> = \<bar>dz\<bar>) \<and> free
              | Knight \<Rightarrow> (\<bar>dx\<bar> = 1 \<and> \<bar>dz\<bar> = 2) \<or> (\<bar>dx\<bar> = 2 \<and> \<bar>dz\<bar> = 1)
              | King \<Rightarrow> max \<bar>dx\<bar> \<bar>dz\<bar> = 1))"

lemma rowExists_start: "rowExists 5" "rowExists 2" "rowExists (6 + - 1)" "rowExists (1 + 1)"
  by (simp_all add: rowExists_def)

lemma isPseudoLegal_inRange:
  assumes rf: "rowExists (fromZ mv)" and rt: "rowExists (toZ mv)"
  shows "isPseudoLegal mv bs forCheck = Some (pseudoOK mv bs forCheck)"
proof (cases "bs (fromZ mv) (fromX mv)")
  case None
  then show ?thesis
    using rf by (simp add: isPseudoLegal_def pseudoOK_def atGuarded_def)
next
  case (Some p)
  note pc = isPathClear_aligned[OF rf rt, of "toX mv" "fromX mv" bs]
  show ?thesis
  proof (cases "type p")
    case Pawn
    show ?thesis
    proof (cases "color p")
      case White
      then show ?thesis
        using Some Pawn rf rt
        by (auto simp: isPseudoLegal_def pseudoOK_def atGuarded_def at_def Let_def rowExists_start)
    next
      case Black
      then show ?thesis
        using Some Pawn rf rt
        by (auto simp: isPseudoLegal_def pseudoOK_def atGuarded_def at_def Let_def rowExists_start)
    qed
  next
    case Knight
    then show ?thesis
      using Some rf rt by (simp add: isPseudoLegal_def pseudoOK_def atGuarded_def Let_def)
  next
    case Bishop
    then show ?thesis
      using Some rf rt pc by (auto simp: isPseudoLegal_def pseudoOK_def atGuarded_def Let_def)
  next
    case Rook
    then show ?thesis
      using Some rf rt pc by (auto simp: isPseudoLegal_def pseudoOK_def atGuarded_def Let_def)
  next
    case Queen
    then show ?thesis
      using Some rf rt pc by (auto simp: isPseudoLegal_def pseudoOK_def atGuarded_def Let_def)
  next
    case King
    then show ?thesis
      using Some rf rt by (simp add: isPseudoLegal_def pseudoOK_def atGuarded_def Let_def)
  qed
qed

section \<open>Simulation and check detection never throw on the board\<close>

definition promotes :: "piece option \<Rightarrow> move \<Rightarrow> bool" where
  "promotes p mv = ((case p of None \<Rightarrow> False | Some q \<Rightarrow> type q = Pawn) \<and> (toZ mv = 0 \<or> toZ mv = 7))"

definition simulated :: "board \<Rightarrow> move \<Rightarrow> board" where
  \<comment> \<open>the board that \<open>applyMoveOnClone\<close> leaves, cell by cell\<close>
  "simulated bs mv = (\<lambda>z x.
     if z = fromZ mv \<and> x = fromX mv then None
     else if z = toZ mv \<and> x = toX mv then
       (if promotes (bs (fromZ mv) (fromX mv)) mv
        then map_option (\<lambda>q. q\<lparr>type := Queen\<rparr>) (bs (fromZ mv) (fromX mv))
        else bs (fromZ mv) (fromX mv))
     else bs z x)"

lemma applyMoveOnClone_inRange:
  assumes "rowExists (fromZ mv)" "rowExists (toZ mv)"
    and "fromX mv \<noteq> toX mv \<or> fromZ mv \<noteq> toZ mv"
  shows "applyMoveOnClone bs mv = Some (simulated bs mv)"
  using assms
  unfolding applyMoveOnClone_def simulated_def promotes_def at_def setAt_def
  by (auto simp: fun_eq_iff split: option.splits)

lemma pseudoOK_moves:
  assumes "pseudoOK mv bs False"
  shows "fromX mv \<noteq> toX mv \<or> fromZ mv \<noteq> toZ mv"
proof (rule ccontr)
  assume "\<not> ?thesis"
  then have "toX mv = fromX mv" "toZ mv = fromZ mv" by simp_all
  with assms show False
    by (auto simp: pseudoOK_def sameColor_def Let_def split: option.splits)
qed

definition kingAt :: "board \<Rightarrow> color \<Rightarrow> int \<Rightarrow> int \<Rightarrow> bool" where
  "kingAt bs player z x = (case bs z x of None \<Rightarrow> False | Some p \<Rightarrow> type p = King \<and> color p = player)"

lemma findKing_fold:
  "(fold (\<lambda>(z, x) (kx, kz).
             case bs z x of
               None \<Rightarrow> (kx, kz)
             | Some p \<Rightarrow> if type p = King \<and> color p = player then (x, z) else (kx, kz)) sq k0 = k0
      \<and> (\<forall>(z, x) \<in> set sq. \<not> kingAt bs player z x))
   \<or> (\<exists>(z, x) \<in> set sq. kingAt bs player z x \<and>
        fold (\<lambda>(z, x) (kx, kz).
             case bs z x of
               None \<Rightarrow> (kx, kz)
             | Some p \<Rightarrow> if type p = King \<and> color p = player then (x, z) else (kx, kz)) sq k0 = (x, z))"
proof (induction sq arbitrary: k0)
  case Nil
  show ?case by simp
next
  case (Cons a sq)
  obtain z x where a: "a = (z, x)" by (cases a)
  obtain kx kz where k0: "k0 = (kx, kz)" by (cases k0)
  show ?case
  proof (cases "kingAt bs player z x")
    case True
    then have step: "(case bs z x of None \<Rightarrow> (kx, kz)
             | Some p \<Rightarrow> if type p = King \<and> color p = player then (x, z) else (kx, kz)) = (x, z)"
      by (auto simp: kingAt_def split: option.splits)
    from Cons.IH[of "(x, z)"] True show ?thesis
      unfolding a k0 by (simp add: step) blast
  next
    case False
    then have step: "(case bs z x of None \<Rightarrow> (kx, kz)
             | Some p \<Rightarrow> if type p = King \<and> color p = player then (x, z) else (kx, kz)) = (kx, kz)"
      by (auto simp: kingAt_def split: option.splits)
    from Cons.IH[of "(kx, kz)"] False show ?thesis
      unfolding a k0 by (simp add: step) 
  qed
qed

lemma findKing_cases:
  "(findKing bs player = (- 1, - 1) \<and> (\<forall>z x. isInside x z \<longrightarrow> \<not> kingAt bs player z x))
   \<or> (\<exists>kx kz. findKing bs player = (kx, kz) \<and> isInside kx kz \<and> kingAt bs player kz kx)"
  using findKing_fold[where bs = bs and player = player and sq = squares and ?k0.0 = "(- 1, - 1)"]
  unfolding findKing_def set_squares by auto


definition attacks :: "board \<Rightarrow> color \<Rightarrow> int \<Rightarrow> int \<Rightarrow> int \<times> int \<Rightarrow> bool" where
  \<comment> \<open>an \<open>opponent\<close> piece on the square \<open>(z, x)\<close> passes the probe towards \<open>(kx, kz)\<close>\<close>
  "attacks bs opponent kx kz = (\<lambda>(z, x).
     (case bs z x of None \<Rightarrow> False | Some p \<Rightarrow> color p = opponent)
     \<and> pseudoOK \<lparr>fromX = x, fromZ = z, toX = kx, toZ = kz\<rparr> bs True)"

lemma attackedFrom_inRange:
  assumes "rowExists kz" and "\<forall>(z, x) \<in> set sq. rowExists z"
  shows "attackedFrom bs opponent kx kz sq = Some (\<exists>s \<in> set sq. attacks bs opponent kx kz s)"
  using assms(2)
proof (induction sq)
  case Nil
  show ?case by simp
next
  case (Cons a sq)
  obtain z x where a: "a = (z, x)" by (cases a)
  have rz: "rowExists z" using Cons.prems a by simp
  have probe: "isPseudoLegal \<lparr>fromX = x, fromZ = z, toX = kx, toZ = kz\<rparr> bs True
               = Some (pseudoOK \<lparr>fromX = x, fromZ = z, toX = kx, toZ = kz\<rparr> bs True)"
    by (rule isPseudoLegal_inRange) (simp_all add: rz assms(1))
  have ih: "attackedFrom bs opponent kx kz sq = Some (\<exists>s \<in> set sq. attacks bs opponent kx kz s)"
    using Cons by simp
  show ?case
    unfolding a by (simp add: probe ih attacks_def split: option.splits)
qed

definition inCheck :: "board \<Rightarrow> color \<Rightarrow> bool" where
  \<comment> \<open>the value that \<open>isKingInCheck\<close> returns\<close>
  "inCheck bs player =
     (let (kx, kz) = findKing bs player
      in kx = - 1 \<or> (\<exists>s \<in> set squares. attacks bs (opposite player) kx kz s))"

lemma rowExists_squares: "\<forall>(z, x) \<in> set squares. rowExists z"
  by (auto simp: set_squares isInside_def rowExists_def)

lemma isKingInCheck_total: "isKingInCheck bs player = Some (inCheck bs player)"
proof -
  obtain kx kz where k: "findKing bs player = (kx, kz)" by (cases "findKing bs player")
  show ?thesis
  proof (cases "kx = - 1")
    case True
    then show ?thesis by (simp add: isKingInCheck_def inCheck_def k)
  next
    case False
    then have "isInside kx kz" using findKing_cases[of bs player] k by auto
    then have "rowExists kz" by (simp add: isInside_def rowExists_def)
    from attackedFrom_inRange[OF this rowExists_squares] False
    show ?thesis by (simp add: isKingInCheck_def inCheck_def k opposite_def)
  qed
qed

definition legalOK :: "board \<Rightarrow> move \<Rightarrow> color \<Rightarrow> bool" where
  \<comment> \<open>the value that \<open>isLegalMove\<close> returns on a move whose rows exist\<close>
  "legalOK bs mv player =
     ((case bs (fromZ mv) (fromX mv) of None \<Rightarrow> False | Some f \<Rightarrow> color f = player)
      \<and> pseudoOK mv bs False
      \<and> \<not> inCheck (simulated (cloneBoard bs) mv) player)"

lemma isLegalMove_inRange:
  assumes rf: "rowExists (fromZ mv)" and rt: "rowExists (toZ mv)"
  shows "isLegalMove bs mv player = Some (legalOK bs mv player)"
proof (cases "pseudoOK mv bs False")
  case False
  then show ?thesis
    unfolding isLegalMove_def legalOK_def
    by (simp add: at_def rf isPseudoLegal_inRange[OF rf rt] split: option.splits)
next
  case True
  from applyMoveOnClone_inRange[OF rf rt pseudoOK_moves[OF True]] True
  show ?thesis
    unfolding isLegalMove_def legalOK_def
    by (simp add: at_def rf isPseudoLegal_inRange[OF rf rt] isKingInCheck_total
             split: option.splits)
qed

section \<open>Rows of the board and missing kings\<close>

lemma isInside_rows: "isInside x z \<Longrightarrow> rowExists z"
  by (simp add: isInside_def rowExists_def)

text \<open>
  C7.  On a board with no king of the queried colour on any of its 64 squares,
  \<open>isKingInCheck\<close> returns true (it returns: nothing is thrown).
\<close>

theorem isKingInCheck_no_king:
  assumes "\<forall>z x p. isInside x z \<and> bs z x = Some p \<longrightarrow> \<not> (type p = King \<and> color p = player)"
  shows "isKingInCheck bs player = Some True"
proof -
  have "\<not> (\<exists>kx kz. findKing bs player = (kx, kz) \<and> isInside kx kz \<and> kingAt bs player kz kx)"
    using assms by (auto simp: kingAt_def split: option.splits)
  then have "findKing bs player = (- 1, - 1)"
    using findKing_cases[of bs player] by blast
  then show ?thesis by (simp add: isKingInCheck_def)
qed

theorem isKingInCheck_no_king_witness:
  "isKingInCheck (emptyBoard(0 := (emptyBoard 0)(4 := Some \<lparr>type = King, color = Black\<rparr>))) White = Some True"
  using isKingInCheck_no_king[of "emptyBoard(0 := (emptyBoard 0)(4 := Some \<lparr>type = King, color = Black\<rparr>))" White]
  by (simp add: emptyBoard_def)

section \<open>The sliding loop of the move generator\<close>

definition rayCells :: "board \<Rightarrow> color \<Rightarrow> int \<Rightarrow> int \<Rightarrow> int \<Rightarrow> int \<Rightarrow> (int \<times> int) set" where
  \<comment> \<open>the squares that the sliding loop started at \<open>(nx, nz)\<close> pushes\<close>
  "rayCells bs col dx dz nx nz =
     {(nx + int k * dx, nz + int k * dz) | k.
        (\<forall>j\<le>k. isInside (nx + int j * dx) (nz + int j * dz))
        \<and> (\<forall>j<k. bs (nz + int j * dz) (nx + int j * dx) = None)
        \<and> freeOrEnemy bs (nz + int k * dz) (nx + int k * dx) col}"

lemma rayCells_outside:
  assumes "\<not> isInside nx nz"
  shows "rayCells bs col dx dz nx nz = {}"
proof (rule ccontr)
  assume "rayCells bs col dx dz nx nz \<noteq> {}"
  then obtain s where "s \<in> rayCells bs col dx dz nx nz" by blast
  then obtain k where "\<forall>j\<le>k. isInside (nx + int j * dx) (nz + int j * dz)"
    unfolding rayCells_def by blast
  then have "isInside (nx + int 0 * dx) (nz + int 0 * dz)" by blast
  with assms show False by simp
qed

lemma rayCells_blocked:
  assumes "isInside nx nz" "bs nz nx = Some q"
  shows "rayCells bs col dx dz nx nz = (if color q \<noteq> col then {(nx, nz)} else {})"
proof -
  have only0: "k = 0" if "\<forall>j<k. bs (nz + int j * dz) (nx + int j * dx) = None" for k
  proof (rule ccontr)
    assume "k \<noteq> 0"
    then have "0 < k" by simp
    with that have "bs (nz + int 0 * dz) (nx + int 0 * dx) = None" by blast
    with assms(2) show False by simp
  qed
  show ?thesis
  proof (cases "color q \<noteq> col")
    case True
    have "rayCells bs col dx dz nx nz = {(nx, nz)}"
    proof (rule set_eqI)
      fix s
      show "s \<in> rayCells bs col dx dz nx nz \<longleftrightarrow> s \<in> {(nx, nz)}"
      proof
        assume "s \<in> rayCells bs col dx dz nx nz"
        then obtain k where k: "s = (nx + int k * dx, nz + int k * dz)"
          "\<forall>j<k. bs (nz + int j * dz) (nx + int j * dx) = None"
          unfolding rayCells_def by blast
        from only0[OF k(2)] k(1) show "s \<in> {(nx, nz)}" by simp
      next
        assume "s \<in> {(nx, nz)}"
        then have "s = (nx + int 0 * dx, nz + int 0 * dz)" by simp
        moreover have "freeOrEnemy bs (nz + int 0 * dz) (nx + int 0 * dx) col"
          using assms(2) True by (simp add: freeOrEnemy_def)
        moreover have "\<forall>j\<le>(0::nat). isInside (nx + int j * dx) (nz + int j * dz)"
          using assms(1) by simp
        ultimately show "s \<in> rayCells bs col dx dz nx nz"
          unfolding rayCells_def by blast
      qed
    qed
    with True show ?thesis by simp
  next
    case False
    have "rayCells bs col dx dz nx nz = {}"
    proof (rule ccontr)
      assume "rayCells bs col dx dz nx nz \<noteq> {}"
      then obtain s where "s \<in> rayCells bs col dx dz nx nz" by blast
      then obtain k where k: "\<forall>j<k. bs (nz + int j * dz) (nx + int j * dx) = None"
        "freeOrEnemy bs (nz + int k * dz) (nx + int k * dx) col"
        unfolding rayCells_def by blast
      from only0[OF k(1)] k(2) assms(2) False show False by (simp add: freeOrEnemy_def)
    qed
    with False show ?thesis by simp
  qed
qed

lemma rayCells_step:
  assumes "isInside nx nz" "bs nz nx = None"
  shows "rayCells bs col dx dz nx nz = insert (nx, nz) (rayCells bs col dx dz (nx + dx) (nz + dz))"
proof (rule set_eqI)
  fix s
  have shiftx: "\<And>j. nx + dx + int j * dx = nx + int (Suc j) * dx"
    and shiftz: "\<And>j. nz + dz + int j * dz = nz + int (Suc j) * dz"
    by (simp_all add: algebra_simps)
  show "s \<in> rayCells bs col dx dz nx nz
        \<longleftrightarrow> s \<in> insert (nx, nz) (rayCells bs col dx dz (nx + dx) (nz + dz))"
  proof
    assume "s \<in> rayCells bs col dx dz nx nz"
    then obtain k where k: "s = (nx + int k * dx, nz + int k * dz)"
      "\<forall>j\<le>k. isInside (nx + int j * dx) (nz + int j * dz)"
      "\<forall>j<k. bs (nz + int j * dz) (nx + int j * dx) = None"
      "freeOrEnemy bs (nz + int k * dz) (nx + int k * dx) col"
      unfolding rayCells_def by blast
    show "s \<in> insert (nx, nz) (rayCells bs col dx dz (nx + dx) (nz + dz))"
    proof (cases k)
      case 0
      with k(1) show ?thesis by simp
    next
      case (Suc m)
      have "s = (nx + dx + int m * dx, nz + dz + int m * dz)"
        unfolding shiftx shiftz using k(1) Suc by simp
      moreover have "\<forall>j\<le>m. isInside (nx + dx + int j * dx) (nz + dz + int j * dz)"
        unfolding shiftx shiftz using k(2) Suc by auto
      moreover have "\<forall>j<m. bs (nz + dz + int j * dz) (nx + dx + int j * dx) = None"
        unfolding shiftx shiftz using k(3) Suc by auto
      moreover have "freeOrEnemy bs (nz + dz + int m * dz) (nx + dx + int m * dx) col"
        unfolding shiftx shiftz using k(4) Suc by simp
      ultimately have "s \<in> rayCells bs col dx dz (nx + dx) (nz + dz)"
        unfolding rayCells_def by blast
      then show ?thesis by simp
    qed
  next
    assume "s \<in> insert (nx, nz) (rayCells bs col dx dz (nx + dx) (nz + dz))"
    then consider "s = (nx, nz)" | "s \<in> rayCells bs col dx dz (nx + dx) (nz + dz)" by blast
    then show "s \<in> rayCells bs col dx dz nx nz"
    proof cases
      case 1
      then have "s = (nx + int 0 * dx, nz + int 0 * dz)" by simp
      moreover have "freeOrEnemy bs (nz + int 0 * dz) (nx + int 0 * dx) col"
        using assms(2) by (simp add: freeOrEnemy_def)
      moreover have "\<forall>j\<le>(0::nat). isInside (nx + int j * dx) (nz + int j * dz)"
        using assms(1) by simp
      ultimately show ?thesis unfolding rayCells_def by blast
    next
      case 2
      then obtain m where m: "s = (nx + dx + int m * dx, nz + dz + int m * dz)"
        "\<forall>j\<le>m. isInside (nx + dx + int j * dx) (nz + dz + int j * dz)"
        "\<forall>j<m. bs (nz + dz + int j * dz) (nx + dx + int j * dx) = None"
        "freeOrEnemy bs (nz + dz + int m * dz) (nx + dx + int m * dx) col"
        unfolding rayCells_def by blast
      have a: "s = (nx + int (Suc m) * dx, nz + int (Suc m) * dz)"
        using m(1) unfolding shiftx shiftz .
      have b: "\<forall>j\<le>Suc m. isInside (nx + int j * dx) (nz + int j * dz)"
      proof (intro allI impI)
        fix j assume j: "j \<le> Suc m"
        show "isInside (nx + int j * dx) (nz + int j * dz)"
        proof (cases j)
          case 0 then show ?thesis using assms(1) by simp
        next
          case (Suc i)
          then have "i \<le> m" using j by simp
          with m(2) show ?thesis unfolding shiftx shiftz Suc by blast
        qed
      qed
      have c: "\<forall>j<Suc m. bs (nz + int j * dz) (nx + int j * dx) = None"
      proof (intro allI impI)
        fix j assume j: "j < Suc m"
        show "bs (nz + int j * dz) (nx + int j * dx) = None"
        proof (cases j)
          case 0 then show ?thesis using assms(2) by simp
        next
          case (Suc i)
          then have "i < m" using j by simp
          with m(3) show ?thesis unfolding shiftx shiftz Suc by blast
        qed
      qed
      have d: "freeOrEnemy bs (nz + int (Suc m) * dz) (nx + int (Suc m) * dx) col"
        using m(4) unfolding shiftx shiftz .
      from a b c d show ?thesis unfolding rayCells_def by blast
    qed
  qed
qed

lemma slide_bounded:
  assumes "\<not> isInside (nx + int n * dx) (nz + int n * dz)"
  shows "\<exists>r. slide bs col dx dz nx nz moves = Some (moves @ r)
             \<and> set r = rayCells bs col dx dz nx nz"
  using assms
proof (induction n arbitrary: nx nz moves)
  case 0
  then have out: "\<not> isInside nx nz" by simp
  then have "slide bs col dx dz nx nz moves = Some (moves @ [])"
    by (subst slide.simps) simp
  with rayCells_outside[OF out] show ?case by fastforce
next
  case (Suc n)
  show ?case
  proof (cases "isInside nx nz")
    case False
    then have "slide bs col dx dz nx nz moves = Some (moves @ [])"
      by (subst slide.simps) simp
    with rayCells_outside[OF False] show ?thesis by fastforce
  next
    case True
    show ?thesis
    proof (cases "bs nz nx")
      case None
      have "\<not> isInside (nx + dx + int n * dx) (nz + dz + int n * dz)"
        using Suc.prems by (simp add: algebra_simps)
      from Suc.IH[OF this, of "moves @ [(nx, nz)]"]
      obtain r where r: "slide bs col dx dz (nx + dx) (nz + dz) (moves @ [(nx, nz)])
                          = Some ((moves @ [(nx, nz)]) @ r)"
        "set r = rayCells bs col dx dz (nx + dx) (nz + dz)" by blast
      have "slide bs col dx dz nx nz moves = Some (moves @ ((nx, nz) # r))"
        by (subst slide.simps) (simp add: True None r(1))
      moreover have "set ((nx, nz) # r) = rayCells bs col dx dz nx nz"
        using rayCells_step[where bs = bs and nx = nx and nz = nz, OF True None] r(2) by simp
      ultimately show ?thesis by blast
    next
      case (Some q)
      have "slide bs col dx dz nx nz moves
            = Some (moves @ (if color q \<noteq> col then [(nx, nz)] else []))"
        by (subst slide.simps) (simp add: True Some enemyAt_def)
      moreover have "set (if color q \<noteq> col then [(nx, nz)] else []) = rayCells bs col dx dz nx nz"
        using rayCells_blocked[where bs = bs and nx = nx and nz = nz, OF True Some] by simp
      ultimately show ?thesis by blast
    qed
  qed
qed

lemma slide_total:
  assumes "dx \<noteq> 0 \<or> dz \<noteq> 0"
  shows "\<exists>r. slide bs col dx dz nx nz moves = Some (moves @ r)
             \<and> set r = rayCells bs col dx dz nx nz"
proof (cases "isInside nx nz")
  case False
  then have "\<not> isInside (nx + int 0 * dx) (nz + int 0 * dz)" by simp
  then show ?thesis by (rule slide_bounded)
next
  case True
  have "\<not> isInside (nx + int 8 * dx) (nz + int 8 * dz)"
    using True assms unfolding isInside_def by auto
  then show ?thesis by (rule slide_bounded)
qed

section \<open>What the move generator returns\<close>

definition stepCells :: "board \<Rightarrow> color \<Rightarrow> int \<Rightarrow> int \<Rightarrow> (int \<times> int) list \<Rightarrow> (int \<times> int) set" where
  "stepCells bs col x z ds =
     {(x + dx, z + dz) | dx dz.
        (dx, dz) \<in> set ds \<and> isInside (x + dx) (z + dz) \<and> freeOrEnemy bs (z + dz) (x + dx) col}"

definition pawnCells :: "board \<Rightarrow> color \<Rightarrow> int \<Rightarrow> int \<Rightarrow> (int \<times> int) set" where
  "pawnCells bs col x z =
     (let dir = (if col = White then - 1 else 1); start = (if col = White then 6 else 1)
      in (if isInside x (z + dir) \<and> bs (z + dir) x = None then {(x, z + dir)} else {})
         \<union> (if z = start \<and> bs (z + dir) x = None \<and> bs (z + 2 * dir) x = None
            then {(x, z + 2 * dir)} else {})
         \<union> (if isInside (x - 1) (z + dir) \<and> enemyAt bs (z + dir) (x - 1) col
            then {(x - 1, z + dir)} else {})
         \<union> (if isInside (x + 1) (z + dir) \<and> enemyAt bs (z + dir) (x + 1) col
            then {(x + 1, z + dir)} else {}))"

definition slideCells :: "board \<Rightarrow> color \<Rightarrow> int \<Rightarrow> int \<Rightarrow> (int \<times> int) list \<Rightarrow> (int \<times> int) set" where
  "slideCells bs col x z dirs = (\<Union>(dx, dz) \<in> set dirs. rayCells bs col dx dz (x + dx) (z + dz))"

definition genCells :: "int \<Rightarrow> int \<Rightarrow> board \<Rightarrow> (int \<times> int) set" where
  \<comment> \<open>the destinations in the list that \<open>generatePseudoMoves\<close> returns\<close>
  "genCells x z bs =
     (case bs z x of
        None \<Rightarrow> {}
      | Some p \<Rightarrow>
          (case type p of
             Pawn \<Rightarrow> pawnCells bs (color p) x z
           | Knight \<Rightarrow> stepCells bs (color p) x z knightOffsets
           | Rook \<Rightarrow> slideCells bs (color p) x z rookDirs
           | Bishop \<Rightarrow> slideCells bs (color p) x z bishopDirs
           | Queen \<Rightarrow> slideCells bs (color p) x z queenDirs
           | King \<Rightarrow> stepCells bs (color p) x z (filter (\<lambda>d. d \<noteq> (0, 0)) kingOffsets)))"

lemma fold_stepTo:
  "set (fold (stepTo bs col x z) ds m) = set m \<union> stepCells bs col x z ds"
proof (induction ds arbitrary: m)
  case Nil
  show ?case by (simp add: stepCells_def)
next
  case (Cons d ds)
  obtain dx dz where d: "d = (dx, dz)" by (cases d)
  have split: "stepCells bs col x z (d # ds)
               = (if isInside (x + dx) (z + dz) \<and> freeOrEnemy bs (z + dz) (x + dx) col
                  then {(x + dx, z + dz)} else {}) \<union> stepCells bs col x z ds"
    unfolding stepCells_def d by auto
  show ?case
    unfolding split by (simp add: Cons.IH) (auto simp: d stepTo_def Let_def)
qed

lemma fold_king:
  "set (fold (\<lambda>(dx, dz) moves. if dx = 0 \<and> dz = 0 then moves
                                  else stepTo bs col x z (dx, dz) moves) ds m)
   = set m \<union> stepCells bs col x z (filter (\<lambda>d. d \<noteq> (0, 0)) ds)"
proof (induction ds arbitrary: m)
  case Nil
  show ?case by (simp add: stepCells_def)
next
  case (Cons d ds)
  obtain dx dz where d: "d = (dx, dz)" by (cases d)
  show ?case
  proof (cases "dx = 0 \<and> dz = 0")
    case True
    then show ?thesis unfolding d by (simp add: Cons.IH)
  next
    case False
    then have f: "filter (\<lambda>d. d \<noteq> (0, 0)) ((dx, dz) # ds) = (dx, dz) # filter (\<lambda>d. d \<noteq> (0, 0)) ds"
      by auto
    have "set (fold (stepTo bs col x z) [(dx, dz)] m) = set m \<union> stepCells bs col x z [(dx, dz)]"
      by (rule fold_stepTo)
    moreover have "stepCells bs col x z ((dx, dz) # filter (\<lambda>d. d \<noteq> (0, 0)) ds)
          = stepCells bs col x z [(dx, dz)] \<union> stepCells bs col x z (filter (\<lambda>d. d \<noteq> (0, 0)) ds)"
      unfolding stepCells_def by auto
    ultimately show ?thesis
      using False unfolding d f by (simp add: Cons.IH) blast
  qed
qed

lemma forEachM_slide:
  assumes "\<forall>(dx, dz) \<in> set dirs. dx \<noteq> 0 \<or> dz \<noteq> 0"
  shows "\<exists>r. forEachM (\<lambda>(dx, dz) moves. slide bs col dx dz (x + dx) (z + dz) moves) dirs m
              = Some (m @ r) \<and> set r = slideCells bs col x z dirs"
  using assms
proof (induction dirs arbitrary: m)
  case Nil
  show ?case by (simp add: slideCells_def)
next
  case (Cons d dirs)
  obtain dx dz where d: "d = (dx, dz)" by (cases d)
  have nz: "dx \<noteq> 0 \<or> dz \<noteq> 0" using Cons.prems d by simp
  from slide_total[OF nz, of bs col "x + dx" "z + dz" m]
  obtain r1 where r1: "slide bs col dx dz (x + dx) (z + dz) m = Some (m @ r1)"
    "set r1 = rayCells bs col dx dz (x + dx) (z + dz)" by blast
  have "\<forall>(dx, dz) \<in> set dirs. dx \<noteq> 0 \<or> dz \<noteq> 0" using Cons.prems by simp
  from Cons.IH[OF this, of "m @ r1"]
  obtain r2 where r2: "forEachM (\<lambda>(dx, dz) moves. slide bs col dx dz (x + dx) (z + dz) moves) dirs (m @ r1)
              = Some ((m @ r1) @ r2)" "set r2 = slideCells bs col x z dirs" by blast
  have "forEachM (\<lambda>(dx, dz) moves. slide bs col dx dz (x + dx) (z + dz) moves) (d # dirs) m
        = Some (m @ (r1 @ r2))"
    unfolding d using r1(1) r2(1) by simp
  moreover have "set (r1 @ r2) = slideCells bs col x z (d # dirs)"
    unfolding d using r1(2) r2(2) by (simp add: slideCells_def)
  ultimately show ?case by blast
qed

lemma dirs_nonzero:
  "\<forall>(dx, dz) \<in> set rookDirs. dx \<noteq> 0 \<or> dz \<noteq> 0"
  "\<forall>(dx, dz) \<in> set bishopDirs. dx \<noteq> 0 \<or> dz \<noteq> 0"
  "\<forall>(dx, dz) \<in> set queenDirs. dx \<noteq> 0 \<or> dz \<noteq> 0"
  by (simp_all add: rookDirs_def bishopDirs_def queenDirs_def)

lemma set_push_if: "set (if c then xs @ [a] else xs) = set xs \<union> (if c then {a} else {})"
  by simp

lemma pawn_list:
  "set (fold (\<lambda>(nx, nz) moves. if isInside nx nz \<and> enemyAt bs nz nx col
                                  then moves @ [(nx, nz)] else moves)
             [(x - 1, zd), (x + 1, zd)] m)
   = set m \<union> (if isInside (x - 1) zd \<and> enemyAt bs zd (x - 1) col then {(x - 1, zd)} else {})
           \<union> (if isInside (x + 1) zd \<and> enemyAt bs zd (x + 1) col then {(x + 1, zd)} else {})"
  by auto

lemma generatePseudoMoves_pawn:
  assumes "rowExists z" "bs z x = Some p" "type p = Pawn"
  shows "\<exists>ms. generatePseudoMoves x z bs = Some ms \<and> set ms = pawnCells bs (color p) x z"
proof -
  define dir :: int where "dir = (if color p = White then - 1 else 1)"
  define start :: int where "start = (if color p = White then 6 else 1)"
  define moves1 where "moves1 = (if isInside x (z + dir) \<and> bs (z + dir) x = None
                                 then [(x, z + dir)] else [])"
  define moves2 where "moves2 = (if z = start \<and> bs (z + dir) x = None \<and> bs (z + 2 * dir) x = None
                                 then moves1 @ [(x, z + 2 * dir)] else moves1)"
  define ms where "ms = fold (\<lambda>(nx, nz) moves. if isInside nx nz \<and> enemyAt bs nz nx (color p)
                                  then moves @ [(nx, nz)] else moves)
                             [(x - 1, z + dir), (x + 1, z + dir)] moves2"
  have "generatePseudoMoves x z bs = Some ms"
    unfolding generatePseudoMoves_def ms_def moves2_def moves1_def dir_def start_def
    using assms by (simp add: at_def Let_def del: fold.simps)
  moreover have s1: "set moves1 = (if isInside x (z + dir) \<and> bs (z + dir) x = None
                                   then {(x, z + dir)} else {})"
    by (simp add: moves1_def)
  have s2: "set moves2 = set moves1 \<union> (if z = start \<and> bs (z + dir) x = None \<and> bs (z + 2 * dir) x = None
                                   then {(x, z + 2 * dir)} else {})"
    unfolding moves2_def by (rule set_push_if)
  have "set ms = pawnCells bs (color p) x z"
    unfolding ms_def pawn_list s2 s1 pawnCells_def Let_def
      dir_def[symmetric] start_def[symmetric] ..
  ultimately show ?thesis by blast
qed

lemma generatePseudoMoves_total:
  assumes "rowExists z"
  shows "\<exists>ms. generatePseudoMoves x z bs = Some ms \<and> set ms = genCells x z bs"
proof (cases "bs z x")
  case None
  then show ?thesis using assms by (simp add: generatePseudoMoves_def genCells_def at_def)
next
  case (Some p)
  show ?thesis
  proof (cases "type p")
    case Pawn
    from generatePseudoMoves_pawn[where bs = bs and x = x and z = z, OF assms Some Pawn] show ?thesis
      using Some Pawn by (simp add: genCells_def)
  next
    case Knight
    then show ?thesis
      using assms Some
      by (simp add: generatePseudoMoves_def genCells_def at_def fold_stepTo)
  next
    case Bishop
    with forEachM_slide[OF dirs_nonzero(2), of bs "color p" x z "[]"] show ?thesis
      using assms Some
      by (simp add: generatePseudoMoves_def genCells_def at_def)
  next
    case Rook
    with forEachM_slide[OF dirs_nonzero(1), of bs "color p" x z "[]"] show ?thesis
      using assms Some
      by (simp add: generatePseudoMoves_def genCells_def at_def)
  next
    case Queen
    with forEachM_slide[OF dirs_nonzero(3), of bs "color p" x z "[]"] show ?thesis
      using assms Some
      by (simp add: generatePseudoMoves_def genCells_def at_def)
  next
    case King
    then show ?thesis
      using assms Some
      by (simp add: generatePseudoMoves_def genCells_def at_def fold_king)
  qed
qed

section \<open>The list of legal moves\<close>

lemma genCells_inside:
  assumes "isInside x z" "(tx, tz) \<in> genCells x z bs"
  shows "isInside tx tz"
proof (cases "bs z x")
  case None
  with assms(2) show ?thesis by (simp add: genCells_def)
next
  case (Some p)
  have step: "isInside tx tz" if "(tx, tz) \<in> stepCells bs c x z ds" for c ds
    using that unfolding stepCells_def by auto
  have ray: "isInside tx tz" if "(tx, tz) \<in> slideCells bs c x z ds" for c ds
  proof -
    from that obtain dx dz where "(tx, tz) \<in> rayCells bs c dx dz (x + dx) (z + dz)"
      unfolding slideCells_def by auto
    then obtain k where "tx = x + dx + int k * dx" "tz = z + dz + int k * dz"
      "\<forall>j\<le>k. isInside (x + dx + int j * dx) (z + dz + int j * dz)"
      unfolding rayCells_def by auto
    then show ?thesis by blast
  qed
  have pawn: "isInside tx tz" if "(tx, tz) \<in> pawnCells bs c x z" for c
    using that assms(1) unfolding pawnCells_def Let_def isInside_def
    by (auto split: if_splits)
  show ?thesis
    using assms(2) Some step ray pawn
    by (cases "type p") (simp_all add: genCells_def)
qed

lemma forEachM_filter:
  assumes "\<forall>a \<in> set xs. \<forall>s. f a s = Some (if P a then s @ [g a] else s)"
  shows "forEachM f xs s = Some (s @ map g (filter P xs))"
  using assms by (induction xs arbitrary: s) simp_all

lemma forEachM_appends:
  assumes "\<forall>a \<in> set xs. \<forall>s. f a s = Some (s @ h a)"
  shows "forEachM f xs s = Some (s @ concat (map h xs))"
  using assms by (induction xs arbitrary: s) simp_all

definition legalFrom :: "board \<Rightarrow> color \<Rightarrow> int \<Rightarrow> int \<Rightarrow> move set" where
  \<comment> \<open>the moves that \<open>allLegalMovesFor\<close> pushes while it visits the square \<open>(z, x)\<close>\<close>
  "legalFrom bs player z x =
     {m. fromX m = x \<and> fromZ m = z \<and> (toX m, toZ m) \<in> genCells x z bs \<and> legalOK bs m player}"

lemma legal_inner:
  assumes ins: "isInside x z" and gen: "set pseudo \<subseteq> genCells x z bs"
  shows "forEachM (\<lambda>(tx, tz) moves.
                     do { let m = \<lparr>fromX = x, fromZ = z, toX = tx, toZ = tz\<rparr>;
                          ok \<leftarrow> isLegalMove bs m player;
                          Some (if ok then moves @ [m] else moves) })
                  pseudo moves
         = Some (moves @ map (\<lambda>(tx, tz). \<lparr>fromX = x, fromZ = z, toX = tx, toZ = tz\<rparr>)
                   (filter (\<lambda>(tx, tz). legalOK bs \<lparr>fromX = x, fromZ = z, toX = tx, toZ = tz\<rparr> player) pseudo))"
proof (rule forEachM_filter, intro ballI allI)
  fix a s assume a: "a \<in> set pseudo"
  obtain tx tz where t: "a = (tx, tz)" by (cases a)
  have "isInside tx tz" using genCells_inside[OF ins] gen a t by blast
  then have "isLegalMove bs \<lparr>fromX = x, fromZ = z, toX = tx, toZ = tz\<rparr> player
             = Some (legalOK bs \<lparr>fromX = x, fromZ = z, toX = tx, toZ = tz\<rparr> player)"
    using ins by (intro isLegalMove_inRange) (simp_all add: isInside_rows)
  then show "(case a of (tx, tz) \<Rightarrow> \<lambda>moves.
                     do { let m = \<lparr>fromX = x, fromZ = z, toX = tx, toZ = tz\<rparr>;
                          ok \<leftarrow> isLegalMove bs m player;
                          Some (if ok then moves @ [m] else moves) }) s
        = Some (if (case a of (tx, tz) \<Rightarrow> legalOK bs \<lparr>fromX = x, fromZ = z, toX = tx, toZ = tz\<rparr> player)
                then s @ [(case a of (tx, tz) \<Rightarrow> \<lparr>fromX = x, fromZ = z, toX = tx, toZ = tz\<rparr>)] else s)"
    unfolding t by simp
qed

lemma legal_square:
  assumes ins: "isInside x z"
  shows "\<exists>r. (\<forall>moves. (case bs z x of
                   None \<Rightarrow> Some moves
                 | Some p \<Rightarrow>
                     if color p \<noteq> player then Some moves
                     else do {
                       pseudo \<leftarrow> generatePseudoMoves x z bs;
                       forEachM (\<lambda>(tx, tz) moves.
                                   do { let m = \<lparr>fromX = x, fromZ = z, toX = tx, toZ = tz\<rparr>;
                                        ok \<leftarrow> isLegalMove bs m player;
                                        Some (if ok then moves @ [m] else moves) })
                                pseudo moves }) = Some (moves @ r))
              \<and> set r = legalFrom bs player z x"
proof (cases "bs z x")
  case None
  then have "legalFrom bs player z x = {}"
    by (auto simp: legalFrom_def legalOK_def)
  with None show ?thesis by simp
next
  case (Some p)
  show ?thesis
  proof (cases "color p = player")
    case False
    then have "legalFrom bs player z x = {}"
      using Some by (auto simp: legalFrom_def legalOK_def)
    with Some False show ?thesis by simp
  next
    case True
    from generatePseudoMoves_total[OF isInside_rows[OF ins], of x bs]
    obtain pseudo where ps: "generatePseudoMoves x z bs = Some pseudo" "set pseudo = genCells x z bs"
      by blast
    define r where "r = map (\<lambda>(tx, tz). \<lparr>fromX = x, fromZ = z, toX = tx, toZ = tz\<rparr>)
                   (filter (\<lambda>(tx, tz). legalOK bs \<lparr>fromX = x, fromZ = z, toX = tx, toZ = tz\<rparr> player) pseudo)"
    have run: "\<forall>moves. (do {
                       pseudo \<leftarrow> generatePseudoMoves x z bs;
                       forEachM (\<lambda>(tx, tz) moves.
                                   do { let m = \<lparr>fromX = x, fromZ = z, toX = tx, toZ = tz\<rparr>;
                                        ok \<leftarrow> isLegalMove bs m player;
                                        Some (if ok then moves @ [m] else moves) })
                                pseudo moves }) = Some (moves @ r)"
      using legal_inner[OF ins, of pseudo bs player] ps unfolding r_def by simp
    have "set r = legalFrom bs player z x"
    proof (rule set_eqI)
      fix m
      show "m \<in> set r \<longleftrightarrow> m \<in> legalFrom bs player z x"
      proof
        assume "m \<in> set r"
        then obtain tx tz where "(tx, tz) \<in> set pseudo"
          "legalOK bs \<lparr>fromX = x, fromZ = z, toX = tx, toZ = tz\<rparr> player"
          "m = \<lparr>fromX = x, fromZ = z, toX = tx, toZ = tz\<rparr>"
          unfolding r_def by auto
        then show "m \<in> legalFrom bs player z x"
          using ps(2) by (simp add: legalFrom_def)
      next
        assume "m \<in> legalFrom bs player z x"
        then have m: "fromX m = x" "fromZ m = z" "(toX m, toZ m) \<in> set pseudo" "legalOK bs m player"
          using ps(2) by (simp_all add: legalFrom_def)
        have eq: "m = \<lparr>fromX = x, fromZ = z, toX = toX m, toZ = toZ m\<rparr>"
          using m(1,2) by simp
        have "(toX m, toZ m) \<in> set (filter (\<lambda>(tx, tz). legalOK bs \<lparr>fromX = x, fromZ = z, toX = tx, toZ = tz\<rparr> player) pseudo)"
          using m(3,4) eq by simp
        then have "(\<lambda>(tx, tz). \<lparr>fromX = x, fromZ = z, toX = tx, toZ = tz\<rparr>) (toX m, toZ m) \<in> set r"
          unfolding r_def set_map by (rule imageI)
        then show "m \<in> set r" using eq by simp
      qed
    qed
    with run Some True show ?thesis by simp
  qed
qed

lemma forEachM_collect:
  assumes "\<forall>a \<in> set xs. \<exists>r. (\<forall>s. f a s = Some (s @ r)) \<and> set r = S a"
  shows "\<exists>r. (\<forall>s. forEachM f xs s = Some (s @ r)) \<and> set r = (\<Union>a \<in> set xs. S a)"
  using assms
proof (induction xs)
  case Nil
  show ?case by simp
next
  case (Cons a xs)
  from Cons.prems obtain r1 where r1: "\<forall>s. f a s = Some (s @ r1)" "set r1 = S a" by auto
  from Cons obtain r2 where r2: "\<forall>s. forEachM f xs s = Some (s @ r2)" "set r2 = (\<Union>a \<in> set xs. S a)"
    by auto
  have "\<forall>s. forEachM f (a # xs) s = Some (s @ (r1 @ r2))"
    using r1(1) r2(1) by simp
  moreover have "set (r1 @ r2) = (\<Union>a \<in> set (a # xs). S a)"
    using r1(2) r2(2) by simp
  ultimately show ?case by blast
qed

definition legalMoves :: "board \<Rightarrow> color \<Rightarrow> move set" where
  \<comment> \<open>the moves in the list that \<open>allLegalMovesFor\<close> returns\<close>
  "legalMoves bs player = (\<Union>(z, x) \<in> set squares. legalFrom bs player z x)"

lemma allLegalMovesFor_total:
  "\<exists>ms. allLegalMovesFor bs player = Some ms \<and> set ms = legalMoves bs player"
proof -
  have "\<forall>a \<in> set squares. \<exists>r. (\<forall>s. (\<lambda>(z, x) moves.
                 case bs z x of
                   None \<Rightarrow> Some moves
                 | Some p \<Rightarrow>
                     if color p \<noteq> player then Some moves
                     else do {
                       pseudo \<leftarrow> generatePseudoMoves x z bs;
                       forEachM (\<lambda>(tx, tz) moves.
                                   do { let m = \<lparr>fromX = x, fromZ = z, toX = tx, toZ = tz\<rparr>;
                                        ok \<leftarrow> isLegalMove bs m player;
                                        Some (if ok then moves @ [m] else moves) })
                                pseudo moves }) a s = Some (s @ r))
            \<and> set r = (\<lambda>(z, x). legalFrom bs player z x) a"
  proof
    fix a assume "a \<in> set squares"
    then obtain z x where a: "a = (z, x)" "isInside x z" by (auto simp: set_squares)
    from legal_square[OF a(2), where bs = bs and player = player] show "\<exists>r. (\<forall>s. (\<lambda>(z, x) moves.
                 case bs z x of
                   None \<Rightarrow> Some moves
                 | Some p \<Rightarrow>
                     if color p \<noteq> player then Some moves
                     else do {
                       pseudo \<leftarrow> generatePseudoMoves x z bs;
                       forEachM (\<lambda>(tx, tz) moves.
                                   do { let m = \<lparr>fromX = x, fromZ = z, toX = tx, toZ = tz\<rparr>;
                                        ok \<leftarrow> isLegalMove bs m player;
                                        Some (if ok then moves @ [m] else moves) })
                                pseudo moves }) a s = Some (s @ r))
            \<and> set r = (\<lambda>(z, x). legalFrom bs player z x) a"
      unfolding a(1) by simp
  qed
  from forEachM_collect[OF this] obtain r where
    "\<forall>s. forEachM (\<lambda>(z, x) moves.
                 case bs z x of
                   None \<Rightarrow> Some moves
                 | Some p \<Rightarrow>
                     if color p \<noteq> player then Some moves
                     else do {
                       pseudo \<leftarrow> generatePseudoMoves x z bs;
                       forEachM (\<lambda>(tx, tz) moves.
                                   do { let m = \<lparr>fromX = x, fromZ = z, toX = tx, toZ = tz\<rparr>;
                                        ok \<leftarrow> isLegalMove bs m player;
                                        Some (if ok then moves @ [m] else moves) })
                                pseudo moves }) squares s = Some (s @ r)"
    "set r = (\<Union>a \<in> set squares. (\<lambda>(z, x). legalFrom bs player z x) a)" by blast
  then show ?thesis
    unfolding allLegalMovesFor_def legalMoves_def by auto
qed

lemma evaluateGameState_total:
  "\<exists>legal. allLegalMovesFor (boardState st) (currentPlayer st) = Some legal
     \<and> evaluateGameState st =
         Some (if legal = []
               then st\<lparr>gameState := Ended,
                       statusText := (if inCheck (boardState st) (currentPlayer st)
                                      then Checkmated (currentPlayer st) else Stalemate)\<rparr>
               else st\<lparr>statusText := GameInProgress\<rparr>)"
proof -
  from allLegalMovesFor_total[of "boardState st" "currentPlayer st"]
  obtain legal where "allLegalMovesFor (boardState st) (currentPlayer st) = Some legal" by blast
  then show ?thesis
    by (simp add: evaluateGameState_def Let_def isKingInCheck_total)
qed

section \<open>Move execution and undo on rows that exist\<close>

definition afterMove :: "engine \<Rightarrow> move \<Rightarrow> engine" where
  \<comment> \<open>the state that \<open>performMove\<close> hands to \<open>evaluateGameState\<close>\<close>
  "afterMove st mv =
     st\<lparr>boardState := simulated (boardState st) mv,
        currentPlayer := opposite (currentPlayer st),
        moveHistory := moveHistory st @
          [\<lparr>move = mv, cap = boardState st (toZ mv) (toX mv), mover = currentPlayer st\<rparr>],
        captured := (case boardState st (toZ mv) (toX mv) of
                       None \<Rightarrow> captured st
                     | Some t \<Rightarrow> (captured st)(currentPlayer st := captured st (currentPlayer st) @ [type t]))\<rparr>"

lemma piece_retype2:
  "\<lparr>type = t, color = c\<rparr>\<lparr>type := Queen\<rparr> = \<lparr>type = Queen, color = c\<rparr>"
  by simp

lemma at_row: "rowExists z \<Longrightarrow> at bs z x = Some (bs z x)"
  by (simp add: at_def)

lemma setAt_row: "rowExists z \<Longrightarrow> setAt bs z x v = Some (bs(z := (bs z)(x := v)))"
  by (simp add: setAt_def)

lemma performMove_inRange:
  assumes rf: "rowExists (fromZ mv)" and rt: "rowExists (toZ mv)"
    and occ: "boardState st (fromZ mv) (fromX mv) = Some f"
    and ne: "fromX mv \<noteq> toX mv \<or> fromZ mv \<noteq> toZ mv"
  shows "performMove st mv = evaluateGameState (afterMove st mv)"
proof -
  define bs where "bs = boardState st"
  define bs1 where "bs1 = (case bs (toZ mv) (toX mv) of None \<Rightarrow> bs
                           | Some t \<Rightarrow> bs(toZ mv := (bs (toZ mv))(toX mv := None)))"
  define bs2 where "bs2 = bs1(toZ mv := (bs1 (toZ mv))(toX mv := Some \<lparr>type = type f, color = color f\<rparr>))"
  define bs3 where "bs3 = bs2(fromZ mv := (bs2 (fromZ mv))(fromX mv := None))"
  define bs4 where "bs4 = (if type f = Pawn \<and> (toZ mv = 0 \<or> toZ mv = 7)
                           then bs3(toZ mv := (bs3 (toZ mv))(toX mv := Some \<lparr>type = Queen, color = color f\<rparr>))
                           else bs3)"
  have e1: "at (boardState st) (fromZ mv) (fromX mv) = Some (Some f)"
    using at_row[OF rf] occ by simp
  have e2: "at (boardState st) (toZ mv) (toX mv) = Some (bs (toZ mv) (toX mv))"
    using at_row[OF rt] bs_def by simp
  have e3: "(case bs (toZ mv) (toX mv) of None \<Rightarrow> Some (boardState st)
             | Some t \<Rightarrow> setAt (boardState st) (toZ mv) (toX mv) None) = Some bs1"
    unfolding bs1_def bs_def using setAt_row[OF rt] by (simp split: option.splits)
  have e4: "setAt bs1 (toZ mv) (toX mv) (Some \<lparr>type = type f, color = color f\<rparr>) = Some bs2"
    unfolding bs2_def by (rule setAt_row[OF rt])
  have e5: "setAt bs2 (fromZ mv) (fromX mv) None = Some bs3"
    unfolding bs3_def by (rule setAt_row[OF rf])
  have at3: "bs3 (toZ mv) (toX mv) = Some \<lparr>type = type f, color = color f\<rparr>"
    using ne unfolding bs3_def bs2_def by auto
  have e6: "(if type f = Pawn \<and> (toZ mv = 0 \<or> toZ mv = 7)
                  then (case bs3 (toZ mv) (toX mv) of
                          None \<Rightarrow> None
                        | Some q \<Rightarrow> setAt bs3 (toZ mv) (toX mv) (Some (q\<lparr>type := Queen\<rparr>)))
                  else Some bs3) = Some bs4"
    unfolding bs4_def at3 option.case piece_retype2 setAt_row[OF rt]
    by (rule if_distrib[where f = Some, symmetric])
  have b4: "bs4 = simulated bs mv"
  proof (intro ext)
    fix z x
    show "bs4 z x = simulated bs mv z x"
      using occ ne unfolding bs4_def bs3_def bs2_def bs1_def simulated_def promotes_def bs_def
      by (auto split: option.splits)
  qed
  have capEq: "(case bs (toZ mv) (toX mv) of None \<Rightarrow> None
                | Some t \<Rightarrow> Some \<lparr>type = type t, color = color t\<rparr>) = bs (toZ mv) (toX mv)"
    by (simp split: option.splits)
  have "performMove st mv =
        evaluateGameState
          (st\<lparr>boardState := bs4, currentPlayer := opposite (currentPlayer st),
              moveHistory := moveHistory st @
                [\<lparr>move = mv, cap = bs (toZ mv) (toX mv), mover = currentPlayer st\<rparr>],
              captured := (case bs (toZ mv) (toX mv) of None \<Rightarrow> captured st
                      | Some t \<Rightarrow> (captured st)(currentPlayer st := captured st (currentPlayer st) @ [type t]))\<rparr>)"
    unfolding performMove_def
    by (simp only: e1 e2 Option.bind.simps Let_def e3 e4 e5 e6 capEq)
  then show ?thesis unfolding afterMove_def b4 bs_def .
qed

definition undone :: "board \<Rightarrow> entry \<Rightarrow> board" where
  \<comment> \<open>the board that \<open>undoMove\<close> leaves for the popped entry, cell by cell\<close>
  "undone bs e = (\<lambda>z x.
     if z = toZ (move e) \<and> x = toX (move e) then cap e
     else if z = fromZ (move e) \<and> x = fromX (move e) then bs (toZ (move e)) (toX (move e))
     else bs z x)"

definition uncaptured :: "engine \<Rightarrow> entry \<Rightarrow> color \<Rightarrow> pieceType list" where
  \<comment> \<open>the captured lists that \<open>undoMove\<close> leaves for the popped entry\<close>
  "uncaptured st e =
     (case cap e of
        None \<Rightarrow> captured st
      | Some c \<Rightarrow> if captured st (mover e) \<noteq> []
                  then (captured st)(mover e := butlast (captured st (mover e)))
                  else captured st)"

lemma undoMove_empty: "moveHistory st = [] \<Longrightarrow> undoMove st = Some st"
  by (simp add: undoMove_def)

lemma undoMove_inRange:
  assumes ne: "moveHistory st \<noteq> []"
    and rf: "rowExists (fromZ (move (last (moveHistory st))))"
    and rt: "rowExists (toZ (move (last (moveHistory st))))"
  shows "undoMove st =
         Some (st\<lparr>boardState := undone (boardState st) (last (moveHistory st)),
                  currentPlayer := mover (last (moveHistory st)),
                  gameState := Playing,
                  moveHistory := butlast (moveHistory st),
                  captured := uncaptured st (last (moveHistory st)),
                  statusText := GameInProgress\<rparr>)"
proof -
  define e where "e = last (moveHistory st)"
  define m where "m = move e"
  define bs where "bs = boardState st"
  define bs1 where "bs1 = bs(fromZ m := (bs (fromZ m))(fromX m := bs (toZ m) (toX m)))"
  define bs2 where "bs2 = bs1(toZ m := (bs1 (toZ m))(toX m := None))"
  define bs3 where "bs3 = (case cap e of None \<Rightarrow> bs2
                           | Some c \<Rightarrow> bs2(toZ m := (bs2 (toZ m))(toX m := Some \<lparr>type = type c, color = color c\<rparr>)))"
  have rf': "rowExists (fromZ m)" and rt': "rowExists (toZ m)"
    using rf rt unfolding m_def e_def by simp_all
  have e1: "at bs (toZ m) (toX m) = Some (bs (toZ m) (toX m))" by (rule at_row[OF rt'])
  have e2: "setAt bs (fromZ m) (fromX m) (bs (toZ m) (toX m)) = Some bs1"
    unfolding bs1_def by (rule setAt_row[OF rf'])
  have e3: "setAt bs1 (toZ m) (toX m) None = Some bs2"
    unfolding bs2_def by (rule setAt_row[OF rt'])
  have e4: "(case cap e of None \<Rightarrow> Some bs2
             | Some c \<Rightarrow> spawnPiece bs2 (type c) (color c) (toX m) (toZ m)) = Some bs3"
    unfolding bs3_def spawnPiece_def using setAt_row[OF rt'] by (simp split: option.splits)
  have b3: "bs3 = undone bs e"
  proof (intro ext)
    fix z x
    show "bs3 z x = undone bs e z x"
      unfolding bs3_def bs2_def bs1_def undone_def m_def[symmetric]
      by (auto split: option.splits)
  qed
  have len: "(length (moveHistory st) = 0) = False" using ne by simp
  have capt: "(case cap e of None \<Rightarrow> captured st
               | Some c \<Rightarrow> if length (captured st (mover e)) \<noteq> 0
                           then (captured st)(mover e := butlast (captured st (mover e)))
                           else captured st) = uncaptured st e"
    unfolding uncaptured_def by (simp split: option.splits)
  show ?thesis
    unfolding undoMove_def len if_False Let_def e_def[symmetric] m_def[symmetric] bs_def[symmetric]
    by (simp only: e1 e2 e3 e4 capt b3 Option.bind.simps)
qed

section \<open>The end of the game, undo and rejected moves\<close>

definition mateBoard :: board where
  \<comment> \<open>black king in the corner a8, white queen on b7 guarded by the white king on c6\<close>
  "mateBoard =
     emptyBoard(0 := (emptyBoard 0)(0 := Some \<lparr>type = King, color = Black\<rparr>),
                1 := (emptyBoard 1)(1 := Some \<lparr>type = Queen, color = White\<rparr>),
                2 := (emptyBoard 2)(2 := Some \<lparr>type = King, color = White\<rparr>))"

definition mateState :: engine where
  "mateState = \<lparr>boardState = mateBoard, currentPlayer = Black, gameState = Playing,
                moveHistory = [], captured = (\<lambda>c. []), statusText = GameInProgress\<rparr>"

lemma mateBoard_no_moves: "allLegalMovesFor mateBoard Black = Some []"
  by code_simp

lemma mateBoard_check: "isKingInCheck mateBoard Black = Some True"
  by code_simp

section \<open>Evaluating concrete positions\<close>

lemma createFile_apply:
  "createFile i bs z x =
     (if x = int i \<and> z = 0 then Some \<lparr>type = backRow ! i, color = Black\<rparr>
      else if x = int i \<and> z = 1 then Some \<lparr>type = Pawn, color = Black\<rparr>
      else if x = int i \<and> z = 6 then Some \<lparr>type = Pawn, color = White\<rparr>
      else if x = int i \<and> z = 7 then Some \<lparr>type = backRow ! i, color = White\<rparr>
      else bs z x)"
  by (simp add: createFile_def Let_def)

lemma initialBoard_fold:
  "fold createFile [0..<n] emptyBoard z x =
     (if 0 \<le> x \<and> x < int n then
        (if z = 0 then Some \<lparr>type = backRow ! nat x, color = Black\<rparr>
         else if z = 1 then Some \<lparr>type = Pawn, color = Black\<rparr>
         else if z = 6 then Some \<lparr>type = Pawn, color = White\<rparr>
         else if z = 7 then Some \<lparr>type = backRow ! nat x, color = White\<rparr>
         else None)
      else None)"
proof (induction n)
  case 0
  show ?case by (simp add: emptyBoard_def)
next
  case (Suc n)
  have "fold createFile [0..<Suc n] emptyBoard z x
        = createFile n (fold createFile [0..<n] emptyBoard) z x" by simp
  also have "\<dots> = (if x = int n \<and> z = 0 then Some \<lparr>type = backRow ! n, color = Black\<rparr>
      else if x = int n \<and> z = 1 then Some \<lparr>type = Pawn, color = Black\<rparr>
      else if x = int n \<and> z = 6 then Some \<lparr>type = Pawn, color = White\<rparr>
      else if x = int n \<and> z = 7 then Some \<lparr>type = backRow ! n, color = White\<rparr>
      else fold createFile [0..<n] emptyBoard z x)"
    by (rule createFile_apply)
  finally show ?case
    unfolding Suc.IH by auto
qed

lemma initialBoard_apply:
  "initialBoard z x =
     (if 0 \<le> x \<and> x < 8 then
        (if z = 0 then Some \<lparr>type = backRow ! nat x, color = Black\<rparr>
         else if z = 1 then Some \<lparr>type = Pawn, color = Black\<rparr>
         else if z = 6 then Some \<lparr>type = Pawn, color = White\<rparr>
         else if z = 7 then Some \<lparr>type = backRow ! nat x, color = White\<rparr>
         else None)
      else None)"
  unfolding initialBoard_def initialBoard_fold by simp

declare initialBoard_def [code del]

declare initialBoard_apply [code]

declare cloneBoard_def [code del]

declare cloneBoard_apply [code]

text \<open>
  C8.  \<open>undoMove\<close> on an empty history returns the state unchanged.  On a non-empty history
  (whose last move has rows that exist, as every entry pushed by \<open>performMove\<close> has) it
  returns a state whose side to move is the popped entry's mover and whose phase is
  in-progress, whatever the position reached and whatever the phase was.
\<close>

theorem undoMove_turn_and_phase:
  "(moveHistory st = [] \<longrightarrow> undoMove st = Some st)
   \<and> (moveHistory st \<noteq> []
        \<and> rowExists (fromZ (move (last (moveHistory st))))
        \<and> rowExists (toZ (move (last (moveHistory st))))
      \<longrightarrow> (\<exists>st'. undoMove st = Some st'
                \<and> currentPlayer st' = mover (last (moveHistory st))
                \<and> gameState st' = Playing
                \<and> moveHistory st' = butlast (moveHistory st)))"
proof (intro conjI impI)
  assume "moveHistory st = []"
  then show "undoMove st = Some st" by (rule undoMove_empty)
next
  assume h: "moveHistory st \<noteq> []
        \<and> rowExists (fromZ (move (last (moveHistory st))))
        \<and> rowExists (toZ (move (last (moveHistory st))))"
  then have "undoMove st =
         Some (st\<lparr>boardState := undone (boardState st) (last (moveHistory st)),
                  currentPlayer := mover (last (moveHistory st)),
                  gameState := Playing,
                  moveHistory := butlast (moveHistory st),
                  captured := uncaptured st (last (moveHistory st)),
                  statusText := GameInProgress\<rparr>)"
    by (intro undoMove_inRange) simp_all
  then show "\<exists>st'. undoMove st = Some st'
                \<and> currentPlayer st' = mover (last (moveHistory st))
                \<and> gameState st' = Playing
                \<and> moveHistory st' = butlast (moveHistory st)"
    by simp
qed

definition matedAfterUndo :: engine where
  \<comment> \<open>an ended game whose last entry, undone, puts the black king back into the corner of
      \<open>mateBoard\<close>, where Black to move is checkmated\<close>
  "matedAfterUndo =
     \<lparr>boardState = emptyBoard(0 := (emptyBoard 0)(1 := Some \<lparr>type = King, color = Black\<rparr>),
                1 := (emptyBoard 1)(1 := Some \<lparr>type = Queen, color = White\<rparr>),
                2 := (emptyBoard 2)(2 := Some \<lparr>type = King, color = White\<rparr>)),
      currentPlayer = White, gameState = Ended,
      moveHistory = [\<lparr>move = \<lparr>fromX = 0, fromZ = 0, toX = 1, toZ = 0\<rparr>, cap = None, mover = Black\<rparr>],
      captured = (\<lambda>c. []), statusText = Stalemate\<rparr>"

theorem undoMove_turn_and_phase_witness:
  "undoMove initialState = Some initialState
   \<and> (\<exists>st'. undoMove matedAfterUndo = Some st' \<and> currentPlayer st' = Black
            \<and> gameState st' = Playing \<and> moveHistory st' = []
            \<and> allLegalMovesFor (boardState st') Black = Some []
            \<and> isKingInCheck (boardState st') Black = Some True)"
proof -
  have a: "undoMove initialState = Some initialState"
    using undoMove_turn_and_phase[of initialState] by (simp add: initialState_def)
  have rows: "rowExists 0" by (simp add: rowExists_def)
  from undoMove_turn_and_phase[of matedAfterUndo] rows
  obtain st' where s: "undoMove matedAfterUndo = Some st'" "currentPlayer st' = Black"
    "gameState st' = Playing" "moveHistory st' = []"
    by (auto simp: matedAfterUndo_def)
  have "undoMove matedAfterUndo = Some (mateState\<lparr>currentPlayer := Black\<rparr>)"
    unfolding undoMove_def matedAfterUndo_def mateState_def mateBoard_def
    by (simp add: at_def setAt_def rowExists_def emptyBoard_def fun_eq_iff)
  with s(1) have "boardState st' = mateBoard" by (auto simp: mateState_def)
  with s mateBoard_no_moves mateBoard_check a show ?thesis by simp
qed

text \<open>
  C6.  A move between squares of the board that \<open>isLegalMove\<close> does not accept for the
  side to move is rejected by the pointer handler without any change: the handler returns
  the very same state (board, side to move, history, captured lists, phase) together with
  the rejection, and nothing is thrown.
\<close>

theorem attemptMove_rejected:
  assumes "isInside (fromX mv) (fromZ mv)" and "isInside (toX mv) (toZ mv)"
    and "isLegalMove (boardState st) mv (currentPlayer st) \<noteq> Some True"
  shows "isLegalMove (boardState st) mv (currentPlayer st) = Some False
         \<and> attemptMove st mv = Some (st, False)"
proof -
  have "isLegalMove (boardState st) mv (currentPlayer st)
        = Some (legalOK (boardState st) mv (currentPlayer st))"
    using assms(1,2) by (intro isLegalMove_inRange) (simp_all add: isInside_rows)
  with assms(3) have "isLegalMove (boardState st) mv (currentPlayer st) = Some False" by simp
  then show ?thesis by (simp add: attemptMove_def)
qed

lemma rook_jump_rejected:
  "isLegalMove initialBoard \<lparr>fromX = 0, fromZ = 7, toX = 0, toZ = 4\<rparr> White = Some False"
  by code_simp

theorem attemptMove_rejected_witness:
  "isInside 0 7 \<and> isInside 0 4
   \<and> attemptMove initialState \<lparr>fromX = 0, fromZ = 7, toX = 0, toZ = 4\<rparr> = Some (initialState, False)"
proof -
  have h: "isInside (fromX \<lparr>fromX = 0, fromZ = 7, toX = 0, toZ = 4\<rparr>) (fromZ \<lparr>fromX = 0, fromZ = 7, toX = 0, toZ = 4\<rparr>)"
    "isInside (toX \<lparr>fromX = 0, fromZ = 7, toX = 0, toZ = 4\<rparr>) (toZ \<lparr>fromX = 0, fromZ = 7, toX = 0, toZ = 4\<rparr>)"
    by (simp_all add: isInside_def)
  have l: "isLegalMove (boardState initialState) \<lparr>fromX = 0, fromZ = 7, toX = 0, toZ = 4\<rparr>
             (currentPlayer initialState) \<noteq> Some True"
    using rook_jump_rejected by (simp add: initialState_def)
  from attemptMove_rejected[OF h l] h show ?thesis by simp
qed

section \<open>Promotion\<close>

lemma legal_facts:
  assumes "isInside (fromX mv) (fromZ mv)" and "isInside (toX mv) (toZ mv)"
    and "isLegalMove bs mv player = Some True"
  shows "\<exists>f. bs (fromZ mv) (fromX mv) = Some f \<and> color f = player"
    and "pseudoOK mv bs False"
    and "fromX mv \<noteq> toX mv \<or> fromZ mv \<noteq> toZ mv"
proof -
  have "isLegalMove bs mv player = Some (legalOK bs mv player)"
    using assms(1,2) by (intro isLegalMove_inRange) (simp_all add: isInside_rows)
  with assms(3) have l: "legalOK bs mv player" by simp
  then show "\<exists>f. bs (fromZ mv) (fromX mv) = Some f \<and> color f = player"
    by (auto simp: legalOK_def split: option.splits)
  from l show p: "pseudoOK mv bs False" by (simp add: legalOK_def)
  then show "fromX mv \<noteq> toX mv \<or> fromZ mv \<noteq> toZ mv" by (rule pseudoOK_moves)
qed

lemma evaluateGameState_board:
  "\<exists>st'. evaluateGameState st = Some st' \<and> boardState st' = boardState st
         \<and> currentPlayer st' = currentPlayer st \<and> moveHistory st' = moveHistory st
         \<and> captured st' = captured st
         \<and> (gameState st' = gameState st \<or> gameState st' = Ended)"
  using evaluateGameState_total[of st] by auto

text \<open>
  C5.  A legal move of a pawn between squares of the board that ends on the last rank of
  its direction (row 0 for White, row 7 for Black) leaves a queen of the mover's colour on
  the destination, both when \<open>performMove\<close> executes it on the live board and when
  \<open>applyMoveOnClone\<close> simulates it on a copy.
\<close>

theorem pawn_promotes_to_queen:
  assumes "isInside (fromX mv) (fromZ mv)" and "isInside (toX mv) (toZ mv)"
    and "isLegalMove (boardState st) mv (currentPlayer st) = Some True"
    and "boardState st (fromZ mv) (fromX mv) = Some p" and "type p = Pawn"
    and "toZ mv = (if color p = White then 0 else 7)"
  shows "(\<exists>st'. performMove st mv = Some st'
            \<and> boardState st' (toZ mv) (toX mv) = Some \<lparr>type = Queen, color = currentPlayer st\<rparr>)
       \<and> (\<exists>c. applyMoveOnClone (cloneBoard (boardState st)) mv = Some c
            \<and> c (toZ mv) (toX mv) = Some \<lparr>type = Queen, color = currentPlayer st\<rparr>)"
proof -
  note lf = legal_facts[OF assms(1,2,3)]
  have col: "color p = currentPlayer st" using lf(1) assms(4) by simp
  have rf: "rowExists (fromZ mv)" and rt: "rowExists (toZ mv)"
    using assms(1,2) by (simp_all add: isInside_rows)
  have prom: "promotes (Some p) mv" using assms(5,6) by (simp add: promotes_def)
  have cell: "simulated bs mv (toZ mv) (toX mv) = Some \<lparr>type = Queen, color = currentPlayer st\<rparr>"
    if "bs (fromZ mv) (fromX mv) = Some p" for bs
    using that lf(3) prom col by (auto simp: simulated_def)
  have live: "\<exists>st'. performMove st mv = Some st'
            \<and> boardState st' (toZ mv) (toX mv) = Some \<lparr>type = Queen, color = currentPlayer st\<rparr>"
  proof -
    from evaluateGameState_board[of "afterMove st mv"] obtain st' where
      s: "evaluateGameState (afterMove st mv) = Some st'"
         "boardState st' = boardState (afterMove st mv)" by blast
    have "performMove st mv = Some st'"
      using performMove_inRange[OF rf rt assms(4) lf(3)] s(1) by simp
    moreover have "boardState st' (toZ mv) (toX mv) = Some \<lparr>type = Queen, color = currentPlayer st\<rparr>"
      using s(2) cell[of "boardState st", OF assms(4)] by (simp add: afterMove_def)
    ultimately show ?thesis by blast
  qed
  have copy: "cloneBoard (boardState st) (fromZ mv) (fromX mv) = Some p"
    using assms(1,4) by (simp add: cloneBoard_apply)
  have "applyMoveOnClone (cloneBoard (boardState st)) mv = Some (simulated (cloneBoard (boardState st)) mv)"
    by (rule applyMoveOnClone_inRange[OF rf rt lf(3)])
  with cell[of "cloneBoard (boardState st)", OF copy] live show ?thesis by blast
qed

definition promotionBoard :: board where
  \<comment> \<open>a white pawn on a7 about to reach a8, with both kings on the board\<close>
  "promotionBoard =
     emptyBoard(1 := (emptyBoard 1)(0 := Some \<lparr>type = Pawn, color = White\<rparr>),
                2 := (emptyBoard 2)(7 := Some \<lparr>type = King, color = Black\<rparr>),
                7 := (emptyBoard 7)(4 := Some \<lparr>type = King, color = White\<rparr>))"

definition promotionState :: engine where
  "promotionState = \<lparr>boardState = promotionBoard, currentPlayer = White, gameState = Playing,
                     moveHistory = [], captured = (\<lambda>c. []), statusText = GameInProgress\<rparr>"

lemma promotion_legal:
  "isLegalMove promotionBoard \<lparr>fromX = 0, fromZ = 1, toX = 0, toZ = 0\<rparr> White = Some True"
  by code_simp

theorem pawn_promotes_to_queen_witness:
  "isLegalMove promotionBoard \<lparr>fromX = 0, fromZ = 1, toX = 0, toZ = 0\<rparr> White = Some True
   \<and> (\<exists>st'. performMove promotionState \<lparr>fromX = 0, fromZ = 1, toX = 0, toZ = 0\<rparr> = Some st'
            \<and> boardState st' 0 0 = Some \<lparr>type = Queen, color = White\<rparr>)
   \<and> (\<exists>c. applyMoveOnClone (cloneBoard promotionBoard) \<lparr>fromX = 0, fromZ = 1, toX = 0, toZ = 0\<rparr> = Some c
            \<and> c 0 0 = Some \<lparr>type = Queen, color = White\<rparr>)"
proof -
  have h1: "isInside (fromX \<lparr>fromX = 0, fromZ = 1, toX = 0, toZ = 0\<rparr>) (fromZ \<lparr>fromX = 0, fromZ = 1, toX = 0, toZ = 0\<rparr>)"
    and h2: "isInside (toX \<lparr>fromX = 0, fromZ = 1, toX = 0, toZ = 0\<rparr>) (toZ \<lparr>fromX = 0, fromZ = 1, toX = 0, toZ = 0\<rparr>)"
    by (simp_all add: isInside_def)
  have h3: "isLegalMove (boardState promotionState) \<lparr>fromX = 0, fromZ = 1, toX = 0, toZ = 0\<rparr>
              (currentPlayer promotionState) = Some True"
    using promotion_legal by (simp add: promotionState_def)
  have h4: "boardState promotionState (fromZ \<lparr>fromX = 0, fromZ = 1, toX = 0, toZ = 0\<rparr>)
              (fromX \<lparr>fromX = 0, fromZ = 1, toX = 0, toZ = 0\<rparr>) = Some \<lparr>type = Pawn, color = White\<rparr>"
    by (simp add: promotionState_def promotionBoard_def)
  have h5: "type \<lparr>type = Pawn, color = White\<rparr> = Pawn" by simp
  have h6: "toZ \<lparr>fromX = 0, fromZ = 1, toX = 0, toZ = 0\<rparr>
            = (if color \<lparr>type = Pawn, color = White\<rparr> = White then 0 else 7)" by simp
  from pawn_promotes_to_queen[OF h1 h2 h3 h4 h5 h6] promotion_legal
  show ?thesis by (simp add: promotionState_def)
qed

section \<open>Executing a move and undoing it\<close>

definition restores :: "engine \<Rightarrow> move \<Rightarrow> bool" where
  \<comment> \<open>\<open>performMove\<close> and then \<open>undoMove\<close> both return, and the board, the side to move, the
      captured lists, the phase and the history are what they were\<close>
  "restores st m =
     (\<exists>st1 st2. performMove st m = Some st1 \<and> undoMove st1 = Some st2
        \<and> boardState st2 = boardState st \<and> currentPlayer st2 = currentPlayer st
        \<and> captured st2 = captured st \<and> gameState st2 = gameState st
        \<and> moveHistory st2 = moveHistory st)"

lemma legal_rows:
  assumes "isLegalMove bs mv player = Some True"
  shows "rowExists (fromZ mv)" and "rowExists (toZ mv)"
proof -
  show rf: "rowExists (fromZ mv)"
  proof (rule ccontr)
    assume "\<not> rowExists (fromZ mv)"
    then have "isLegalMove bs mv player = None" by (simp add: isLegalMove_def at_def)
    with assms show False by simp
  qed
  show "rowExists (toZ mv)"
  proof (rule ccontr)
    assume nt: "\<not> rowExists (toZ mv)"
    have ap: "applyMoveOnClone c mv = None" for c
      using rf nt by (simp add: applyMoveOnClone_def at_def setAt_def)
    have "isLegalMove bs mv player \<noteq> Some True"
    proof (cases "isPseudoLegal mv bs False")
      case None
      then show ?thesis by (simp add: isLegalMove_def at_def rf)
    next
      case (Some b)
      then show ?thesis by (cases b) (simp_all add: isLegalMove_def at_def rf ap)
    qed
    with assms show False by simp
  qed
qed

lemma undone_simulated:
  assumes "fromX mv \<noteq> toX mv \<or> fromZ mv \<noteq> toZ mv"
    and "\<not> promotes (bs (fromZ mv) (fromX mv)) mv"
  shows "undone (simulated bs mv) \<lparr>move = mv, cap = bs (toZ mv) (toX mv), mover = c\<rparr> = bs"
proof (intro ext)
  fix z x
  show "undone (simulated bs mv) \<lparr>move = mv, cap = bs (toZ mv) (toX mv), mover = c\<rparr> z x = bs z x"
    using assms by (auto simp: undone_def simulated_def)
qed

lemma roundtrip:
  assumes legal: "isLegalMove (boardState st) mv (currentPlayer st) = Some True"
    and playing: "gameState st = Playing"
    and noprom: "\<not> promotes (boardState st (fromZ mv) (fromX mv)) mv"
  shows "restores st mv"
proof -
  note rf = legal_rows(1)[OF legal] and rt = legal_rows(2)[OF legal]
  have "isLegalMove (boardState st) mv (currentPlayer st)
        = Some (legalOK (boardState st) mv (currentPlayer st))"
    by (rule isLegalMove_inRange[OF rf rt])
  with legal have l: "legalOK (boardState st) mv (currentPlayer st)" by simp
  then obtain f where occ: "boardState st (fromZ mv) (fromX mv) = Some f"
    by (auto simp: legalOK_def split: option.splits)
  from l have "pseudoOK mv (boardState st) False" by (simp add: legalOK_def)
  then have ne: "fromX mv \<noteq> toX mv \<or> fromZ mv \<noteq> toZ mv"
    by (rule pseudoOK_moves)
  define e where "e = \<lparr>move = mv, cap = boardState st (toZ mv) (toX mv), mover = currentPlayer st\<rparr>"
  from evaluateGameState_board[of "afterMove st mv"] obtain st1 where
    s1: "evaluateGameState (afterMove st mv) = Some st1"
        "boardState st1 = boardState (afterMove st mv)"
        "moveHistory st1 = moveHistory (afterMove st mv)"
        "captured st1 = captured (afterMove st mv)" by blast
  have p: "performMove st mv = Some st1"
    using performMove_inRange[OF rf rt occ ne] s1(1) by simp
  have h1: "moveHistory st1 = moveHistory st @ [e]"
    using s1(3) by (simp add: afterMove_def e_def)
  then have lst: "last (moveHistory st1) = e" and nonempty: "moveHistory st1 \<noteq> []"
    and bl: "butlast (moveHistory st1) = moveHistory st" by simp_all
  have b1: "boardState st1 = simulated (boardState st) mv"
    using s1(2) by (simp add: afterMove_def)
  have u: "undoMove st1 =
         Some (st1\<lparr>boardState := undone (boardState st1) e,
                  currentPlayer := mover e,
                  gameState := Playing,
                  moveHistory := moveHistory st,
                  captured := uncaptured st1 e,
                  statusText := GameInProgress\<rparr>)"
    using undoMove_inRange[OF nonempty] rf rt unfolding lst bl by (simp add: e_def)
  have board: "undone (boardState st1) e = boardState st"
    unfolding b1 e_def by (rule undone_simulated[where bs = "boardState st" and mv = mv, OF ne noprom])
  have capt: "uncaptured st1 e = captured st"
  proof (cases "boardState st (toZ mv) (toX mv)")
    case None
    then show ?thesis using s1(4) by (simp add: uncaptured_def e_def afterMove_def)
  next
    case (Some t)
    then show ?thesis using s1(4)
      by (simp add: uncaptured_def e_def afterMove_def fun_eq_iff)
  qed
  show ?thesis
    unfolding restores_def using p u board capt playing by (simp add: e_def)
qed

lemma no_promotion:
  assumes ok: "pseudoOK mv bs False"
    and rf: "rowExists (fromZ mv)"
    and pawns: "\<And>p. bs (fromZ mv) (fromX mv) = Some p \<Longrightarrow> type p = Pawn \<Longrightarrow>
                  (color p = White \<longrightarrow> 2 \<le> fromZ mv) \<and> (color p = Black \<longrightarrow> fromZ mv \<le> 5)"
  shows "\<not> promotes (bs (fromZ mv) (fromX mv)) mv"
proof (cases "bs (fromZ mv) (fromX mv)")
  case None
  then show ?thesis by (simp add: promotes_def)
next
  case (Some p)
  show ?thesis
  proof (cases "type p = Pawn")
    case False
    with Some show ?thesis by (simp add: promotes_def)
  next
    case True
    have step: "toZ mv - fromZ mv = (if color p = White then - 1 else 1)
                \<or> (toZ mv - fromZ mv = 2 * (if color p = White then - 1 else 1)
                    \<and> fromZ mv = (if color p = White then 6 else 1))"
      using ok Some True by (auto simp: pseudoOK_def Let_def)
    have "color p = White \<or> color p = Black" by (cases "color p") simp_all
    then have "toZ mv \<noteq> 0 \<and> toZ mv \<noteq> 7"
      using step pawns[OF Some True] rf unfolding rowExists_def by auto
    then show ?thesis by (simp add: promotes_def)
  qed
qed

lemma backRow_no_pawn: "0 \<le> x \<Longrightarrow> x < 8 \<Longrightarrow> backRow ! nat x \<noteq> Pawn"
proof -
  assume "0 \<le> x" "x < 8"
  then have "x = 0 \<or> x = 1 \<or> x = 2 \<or> x = 3 \<or> x = 4 \<or> x = 5 \<or> x = 6 \<or> x = 7" by arith
  then show ?thesis by (elim disjE) (simp_all add: backRow_def)
qed

lemma initial_pawns:
  assumes "initialBoard z x = Some p" "type p = Pawn"
  shows "(z = 6 \<and> color p = White) \<or> (z = 1 \<and> color p = Black)"
  using assms backRow_no_pawn[of x]
  by (auto simp: initialBoard_apply split: if_splits)

definition midGameBoard :: board where
  \<comment> \<open>the position after 1. e4 d5: the white pawn on e4 can take the black pawn on d5\<close>
  "midGameBoard =
     initialBoard(6 := (initialBoard 6)(4 := None),
                  4 := (initialBoard 4)(4 := Some \<lparr>type = Pawn, color = White\<rparr>),
                  1 := (initialBoard 1)(3 := None),
                  3 := (initialBoard 3)(3 := Some \<lparr>type = Pawn, color = Black\<rparr>))"

definition midGameState :: engine where
  "midGameState =
     \<lparr>boardState = midGameBoard, currentPlayer = White, gameState = Playing,
      moveHistory = [\<lparr>move = \<lparr>fromX = 4, fromZ = 6, toX = 4, toZ = 4\<rparr>, cap = None, mover = White\<rparr>,
                     \<lparr>move = \<lparr>fromX = 3, fromZ = 1, toX = 3, toZ = 3\<rparr>, cap = None, mover = Black\<rparr>],
      captured = (\<lambda>c. []), statusText = GameInProgress\<rparr>"

lemma midGame_pawns:
  assumes "midGameBoard z x = Some p" "type p = Pawn"
  shows "(2 \<le> z \<and> color p = White) \<or> (z \<le> 5 \<and> color p = Black)"
  using assms initial_pawns[of z x p]
  by (auto simp: midGameBoard_def split: if_splits)

lemma e4_legal:
  "isLegalMove initialBoard \<lparr>fromX = 4, fromZ = 6, toX = 4, toZ = 4\<rparr> White = Some True"
  by code_simp

lemma d5_legal:
  "isLegalMove (simulated initialBoard \<lparr>fromX = 4, fromZ = 6, toX = 4, toZ = 4\<rparr>)
     \<lparr>fromX = 3, fromZ = 1, toX = 3, toZ = 3\<rparr> Black = Some True"
  by code_simp

lemma exd5_legal:
  "isLegalMove midGameBoard \<lparr>fromX = 4, fromZ = 4, toX = 3, toZ = 3\<rparr> White = Some True"
  by code_simp

lemma midGameBoard_played:
  "simulated (simulated initialBoard \<lparr>fromX = 4, fromZ = 6, toX = 4, toZ = 4\<rparr>)
     \<lparr>fromX = 3, fromZ = 1, toX = 3, toZ = 3\<rparr> = midGameBoard"
  by (intro ext) (simp add: simulated_def promotes_def midGameBoard_def initialBoard_apply)

text \<open>
  C2.  Every move that \<open>isLegalMove\<close> accepts for White in the initial position, and every
  move it accepts for White in the position after 1. e4 d5 (where the pawn on e4 can take
  the pawn on d5, and that capture is accepted), can be executed by \<open>performMove\<close> and
  taken back by \<open>undoMove\<close>; afterwards the board, the side to move, both captured lists,
  the phase and the history are exactly what they were before the move.
\<close>

theorem performMove_undoMove_roundtrip:
  "(\<forall>m. isLegalMove (boardState initialState) m (currentPlayer initialState) = Some True
        \<longrightarrow> restores initialState m)
   \<and> (\<forall>m. isLegalMove (boardState midGameState) m (currentPlayer midGameState) = Some True
        \<longrightarrow> restores midGameState m)
   \<and> isLegalMove (boardState midGameState) \<lparr>fromX = 4, fromZ = 4, toX = 3, toZ = 3\<rparr>
        (currentPlayer midGameState) = Some True
   \<and> boardState midGameState 3 3 = Some \<lparr>type = Pawn, color = Black\<rparr>"
proof (intro conjI allI impI)
  fix m
  assume legal: "isLegalMove (boardState initialState) m (currentPlayer initialState) = Some True"
  note rf = legal_rows(1)[OF legal] and rt = legal_rows(2)[OF legal]
  have "isLegalMove (boardState initialState) m (currentPlayer initialState)
        = Some (legalOK (boardState initialState) m (currentPlayer initialState))"
    by (rule isLegalMove_inRange[OF rf rt])
  with legal have ok: "pseudoOK m (boardState initialState) False" by (simp add: legalOK_def)
  have "\<not> promotes (boardState initialState (fromZ m) (fromX m)) m"
  proof (rule no_promotion[OF ok rf])
    fix p assume "boardState initialState (fromZ m) (fromX m) = Some p" "type p = Pawn"
    then show "(color p = White \<longrightarrow> 2 \<le> fromZ m) \<and> (color p = Black \<longrightarrow> fromZ m \<le> 5)"
      using initial_pawns[of "fromZ m" "fromX m" p] by (auto simp: initialState_def)
  qed
  then show "restores initialState m"
    by (intro roundtrip[OF legal]) (simp_all add: initialState_def)
next
  fix m
  assume legal: "isLegalMove (boardState midGameState) m (currentPlayer midGameState) = Some True"
  note rf = legal_rows(1)[OF legal] and rt = legal_rows(2)[OF legal]
  have "isLegalMove (boardState midGameState) m (currentPlayer midGameState)
        = Some (legalOK (boardState midGameState) m (currentPlayer midGameState))"
    by (rule isLegalMove_inRange[OF rf rt])
  with legal have ok: "pseudoOK m (boardState midGameState) False" by (simp add: legalOK_def)
  have "\<not> promotes (boardState midGameState (fromZ m) (fromX m)) m"
  proof (rule no_promotion[OF ok rf])
    fix p assume "boardState midGameState (fromZ m) (fromX m) = Some p" "type p = Pawn"
    then show "(color p = White \<longrightarrow> 2 \<le> fromZ m) \<and> (color p = Black \<longrightarrow> fromZ m \<le> 5)"
      using midGame_pawns[of "fromZ m" "fromX m" p] by (auto simp: midGameState_def)
  qed
  then show "restores midGameState m"
    by (intro roundtrip[OF legal]) (simp_all add: midGameState_def)
next
  show "isLegalMove (boardState midGameState) \<lparr>fromX = 4, fromZ = 4, toX = 3, toZ = 3\<rparr>
        (currentPlayer midGameState) = Some True"
    using exd5_legal by (simp add: midGameState_def)
next
  show "boardState midGameState 3 3 = Some \<lparr>type = Pawn, color = Black\<rparr>"
    by (simp add: midGameState_def midGameBoard_def)
qed

theorem performMove_undoMove_roundtrip_witness:
  "restores initialState \<lparr>fromX = 4, fromZ = 6, toX = 4, toZ = 4\<rparr>
   \<and> restores midGameState \<lparr>fromX = 4, fromZ = 4, toX = 3, toZ = 3\<rparr>"
  using performMove_undoMove_roundtrip e4_legal exd5_legal
  by (simp add: initialState_def midGameState_def)

lemma evaluateGameState_moves_left:
  assumes "allLegalMovesFor (boardState st) (currentPlayer st) \<noteq> Some []"
  shows "evaluateGameState st = Some (st\<lparr>statusText := GameInProgress\<rparr>)"
  using evaluateGameState_total[of st] assms by auto

lemma black_can_answer_e4:
  "allLegalMovesFor (simulated initialBoard \<lparr>fromX = 4, fromZ = 6, toX = 4, toZ = 4\<rparr>) Black \<noteq> Some []"
  by code_simp

lemma white_can_answer_d5:
  "allLegalMovesFor midGameBoard White \<noteq> Some []"
  by code_simp

lemma midGame_reached:
  "performMove initialState \<lparr>fromX = 4, fromZ = 6, toX = 4, toZ = 4\<rparr>
     \<bind> (\<lambda>st. performMove st \<lparr>fromX = 3, fromZ = 1, toX = 3, toZ = 3\<rparr>)
   = Some midGameState"
proof -
  define e4 where "e4 = \<lparr>fromX = 4, fromZ = 6, toX = 4, toZ = 4\<rparr>"
  define d5 where "d5 = \<lparr>fromX = 3, fromZ = 1, toX = 3, toZ = 3\<rparr>"
  define s1 where "s1 = (afterMove initialState e4)\<lparr>statusText := GameInProgress\<rparr>"
  have rows: "rowExists 6" "rowExists 4" "rowExists 1" "rowExists 3"
    by (simp_all add: rowExists_def)
  have p1: "performMove initialState e4 = evaluateGameState (afterMove initialState e4)"
    by (rule performMove_inRange[where f = "\<lparr>type = Pawn, color = White\<rparr>"])
       (simp_all add: e4_def rows initialState_def initialBoard_apply)
  have "allLegalMovesFor (boardState (afterMove initialState e4))
          (currentPlayer (afterMove initialState e4)) \<noteq> Some []"
    using black_can_answer_e4 by (simp add: afterMove_def initialState_def e4_def opposite_def)
  then have "evaluateGameState (afterMove initialState e4) = Some s1"
    unfolding s1_def by (rule evaluateGameState_moves_left)
  with p1 have r1: "performMove initialState e4 = Some s1" by simp
  have b1: "boardState s1 = simulated initialBoard e4"
    by (simp add: s1_def afterMove_def initialState_def)
  have p2: "performMove s1 d5 = evaluateGameState (afterMove s1 d5)"
    by (rule performMove_inRange[where f = "\<lparr>type = Pawn, color = Black\<rparr>"])
       (simp_all add: d5_def rows b1 simulated_def e4_def initialBoard_apply promotes_def)
  have b2: "boardState (afterMove s1 d5) = midGameBoard"
    using midGameBoard_played by (simp add: afterMove_def b1 e4_def d5_def)
  have "currentPlayer (afterMove s1 d5) = White"
    by (simp add: afterMove_def s1_def initialState_def opposite_def)
  then have "allLegalMovesFor (boardState (afterMove s1 d5)) (currentPlayer (afterMove s1 d5)) \<noteq> Some []"
    using white_can_answer_d5 by (simp add: b2)
  then have "evaluateGameState (afterMove s1 d5) = Some ((afterMove s1 d5)\<lparr>statusText := GameInProgress\<rparr>)"
    by (rule evaluateGameState_moves_left)
  with p2 have r2: "performMove s1 d5 = Some ((afterMove s1 d5)\<lparr>statusText := GameInProgress\<rparr>)"
    by simp
  have cells: "simulated initialBoard e4 3 3 = None" "initialBoard 4 4 = None"
    by (simp_all add: simulated_def e4_def initialBoard_apply)
  have "(afterMove s1 d5)\<lparr>statusText := GameInProgress\<rparr> = midGameState"
    using b2 cells
    by (simp add: afterMove_def s1_def initialState_def midGameState_def e4_def d5_def
          opposite_def)
  with r1 r2 show ?thesis unfolding e4_def d5_def by simp
qed

section \<open>The generator and the predicate agree\<close>

lemma unit_step: "(d::int) \<in> {- 1, 0, 1} \<Longrightarrow> d = - 1 \<or> d = 0 \<or> d = 1"
  by auto

lemma inside_between:
  assumes "isInside x z" "isInside (x + n * dx) (z + n * dz)"
    and "dx \<in> {- 1, 0, 1}" "dz \<in> {- 1, 0, 1}" "0 \<le> i" "i \<le> n"
  shows "isInside (x + i * dx) (z + i * dz)"
proof -
  have "dx = - 1 \<or> dx = 0 \<or> dx = 1" "dz = - 1 \<or> dz = 0 \<or> dz = 1"
    using assms(3,4) by auto
  then show ?thesis
    using assms(1,2,5,6) unfolding isInside_def by (elim disjE) simp_all
qed

lemma ray_iff:
  assumes dx: "dx \<in> {- 1, 0, 1}" and dz: "dz \<in> {- 1, 0, 1}" and src: "isInside x z"
  shows "(tx, tz) \<in> rayCells bs col dx dz (x + dx) (z + dz) \<longleftrightarrow>
         (\<exists>n>0. tx = x + n * dx \<and> tz = z + n * dz \<and> isInside tx tz
               \<and> (\<forall>i. 0 < i \<and> i < n \<longrightarrow> bs (z + i * dz) (x + i * dx) = None)
               \<and> freeOrEnemy bs tz tx col)"
proof
  assume "(tx, tz) \<in> rayCells bs col dx dz (x + dx) (z + dz)"
  then obtain k where k: "tx = x + dx + int k * dx" "tz = z + dz + int k * dz"
    "\<forall>j\<le>k. isInside (x + dx + int j * dx) (z + dz + int j * dz)"
    "\<forall>j<k. bs (z + dz + int j * dz) (x + dx + int j * dx) = None"
    "freeOrEnemy bs (z + dz + int k * dz) (x + dx + int k * dx) col"
    unfolding rayCells_def by auto
  define n where "n = int k + 1"
  have n0: "0 < n" by (simp add: n_def)
  have tx: "tx = x + n * dx" and tz: "tz = z + n * dz"
    using k(1,2) by (simp_all add: n_def algebra_simps)
  have ins: "isInside tx tz" using k(3)[rule_format, of k] k(1,2) by simp
  have emp: "\<forall>i. 0 < i \<and> i < n \<longrightarrow> bs (z + i * dz) (x + i * dx) = None"
  proof (intro allI impI)
    fix i :: int assume i: "0 < i \<and> i < n"
    then have "nat (i - 1) < k" unfolding n_def by arith
    from k(4)[rule_format, OF this] i
    show "bs (z + i * dz) (x + i * dx) = None" by (simp add: algebra_simps)
  qed
  have "freeOrEnemy bs tz tx col" using k(5) k(1,2) by simp
  with n0 tx tz ins emp show "\<exists>n>0. tx = x + n * dx \<and> tz = z + n * dz \<and> isInside tx tz
               \<and> (\<forall>i. 0 < i \<and> i < n \<longrightarrow> bs (z + i * dz) (x + i * dx) = None)
               \<and> freeOrEnemy bs tz tx col" by blast
next
  assume "\<exists>n>0. tx = x + n * dx \<and> tz = z + n * dz \<and> isInside tx tz
               \<and> (\<forall>i. 0 < i \<and> i < n \<longrightarrow> bs (z + i * dz) (x + i * dx) = None)
               \<and> freeOrEnemy bs tz tx col"
  then obtain n where n: "0 < n" "tx = x + n * dx" "tz = z + n * dz" "isInside tx tz"
    "\<forall>i. 0 < i \<and> i < n \<longrightarrow> bs (z + i * dz) (x + i * dx) = None"
    "freeOrEnemy bs tz tx col" by blast
  define k where "k = nat (n - 1)"
  have kn: "int k = n - 1" using n(1) by (simp add: k_def)
  have a: "tx = x + dx + int k * dx" "tz = z + dz + int k * dz"
    using n(2,3) by (simp_all add: kn algebra_simps)
  have b: "\<forall>j\<le>k. isInside (x + dx + int j * dx) (z + dz + int j * dz)"
  proof (intro allI impI)
    fix j assume "j \<le> k"
    then have "0 \<le> int j + 1" "int j + 1 \<le> n" using kn by simp_all
    from inside_between[OF src n(4)[unfolded n(2,3)] dx dz this]
    show "isInside (x + dx + int j * dx) (z + dz + int j * dz)" by (simp add: algebra_simps)
  qed
  have c: "\<forall>j<k. bs (z + dz + int j * dz) (x + dx + int j * dx) = None"
  proof (intro allI impI)
    fix j assume "j < k"
    then have "0 < int j + 1 \<and> int j + 1 < n" using kn by simp
    from n(5)[rule_format, OF this]
    show "bs (z + dz + int j * dz) (x + dx + int j * dx) = None" by (simp add: algebra_simps)
  qed
  have d: "freeOrEnemy bs (z + dz + int k * dz) (x + dx + int k * dx) col"
    using n(6) a by simp
  show "(tx, tz) \<in> rayCells bs col dx dz (x + dx) (z + dz)"
    unfolding rayCells_def using a b c d by blast
qed

lemma scaled_step:
  fixes n d e :: int
  assumes "0 < n" "d \<in> {- 1, 0, 1}" "e \<in> {- 1, 0, 1}" "d \<noteq> 0 \<or> e \<noteq> 0"
  shows "sgn (n * d) = d" and "sgn (n * e) = e" and "max \<bar>n * d\<bar> \<bar>n * e\<bar> = n"
    and "n * d = 0 \<or> n * e = 0 \<or> \<bar>n * d\<bar> = \<bar>n * e\<bar>"
proof -
  have d: "d = - 1 \<or> d = 0 \<or> d = 1" and e: "e = - 1 \<or> e = 0 \<or> e = 1"
    using assms(2,3) by auto
  show "sgn (n * d) = d" using d assms(1) by (elim disjE) simp_all
  show "sgn (n * e) = e" using e assms(1) by (elim disjE) simp_all
  show "max \<bar>n * d\<bar> \<bar>n * e\<bar> = n" using d e assms(1,4) by (elim disjE) simp_all
  show "n * d = 0 \<or> n * e = 0 \<or> \<bar>n * d\<bar> = \<bar>n * e\<bar>"
    using d e assms(1) by (elim disjE) simp_all
qed

lemma sgn_unit: "sgn (a::int) \<in> {- 1, 0, 1}"
  using sgn_cases_int[of a] by auto

lemma slideCells_iff:
  assumes dirs: "\<forall>(dx, dz) \<in> set dirs. dx \<in> {- 1, 0, 1} \<and> dz \<in> {- 1, 0, 1} \<and> (dx \<noteq> 0 \<or> dz \<noteq> 0)"
    and src: "isInside x z" and tgt: "isInside tx tz"
  shows "(tx, tz) \<in> slideCells bs col x z dirs \<longleftrightarrow>
         ((sgn (tx - x), sgn (tz - z)) \<in> set dirs
          \<and> (tx - x = 0 \<or> tz - z = 0 \<or> \<bar>tx - x\<bar> = \<bar>tz - z\<bar>)
          \<and> pathFree bs x z tx tz \<and> freeOrEnemy bs tz tx col)"
proof
  assume "(tx, tz) \<in> slideCells bs col x z dirs"
  then obtain dx dz where d: "(dx, dz) \<in> set dirs"
    and r: "(tx, tz) \<in> rayCells bs col dx dz (x + dx) (z + dz)"
    unfolding slideCells_def by auto
  from dirs d have u: "dx \<in> {- 1, 0, 1}" "dz \<in> {- 1, 0, 1}" "dx \<noteq> 0 \<or> dz \<noteq> 0" by auto
  from r[unfolded ray_iff[OF u(1,2) src]] obtain n where n: "0 < n" "tx = x + n * dx"
    "tz = z + n * dz" "\<forall>i. 0 < i \<and> i < n \<longrightarrow> bs (z + i * dz) (x + i * dx) = None"
    "freeOrEnemy bs tz tx col" by blast
  have dxy: "tx - x = n * dx" "tz - z = n * dz" using n(2,3) by simp_all
  note s = scaled_step[OF n(1) u]
  have "(sgn (tx - x), sgn (tz - z)) \<in> set dirs" unfolding dxy s(1,2) by (rule d)
  moreover have "tx - x = 0 \<or> tz - z = 0 \<or> \<bar>tx - x\<bar> = \<bar>tz - z\<bar>" unfolding dxy by (rule s(4))
  moreover have "pathFree bs x z tx tz"
    unfolding pathFree_def dxy s(1,2,3) using n(4) by blast
  ultimately show "(sgn (tx - x), sgn (tz - z)) \<in> set dirs
          \<and> (tx - x = 0 \<or> tz - z = 0 \<or> \<bar>tx - x\<bar> = \<bar>tz - z\<bar>)
          \<and> pathFree bs x z tx tz \<and> freeOrEnemy bs tz tx col"
    using n(5) by blast
next
  assume h: "(sgn (tx - x), sgn (tz - z)) \<in> set dirs
          \<and> (tx - x = 0 \<or> tz - z = 0 \<or> \<bar>tx - x\<bar> = \<bar>tz - z\<bar>)
          \<and> pathFree bs x z tx tz \<and> freeOrEnemy bs tz tx col"
  define dx where "dx = sgn (tx - x)"
  define dz where "dz = sgn (tz - z)"
  define n where "n = max \<bar>tx - x\<bar> \<bar>tz - z\<bar>"
  have d: "(dx, dz) \<in> set dirs" using h by (simp add: dx_def dz_def)
  with dirs have nz: "dx \<noteq> 0 \<or> dz \<noteq> 0" by auto
  have u: "dx \<in> {- 1, 0, 1}" "dz \<in> {- 1, 0, 1}" unfolding dx_def dz_def by (rule sgn_unit)+
  have n0: "0 < n"
    using nz sgn_cases_int[of "tx - x"] sgn_cases_int[of "tz - z"]
    unfolding n_def dx_def dz_def by auto
  have al: "tx - x = 0 \<or> tz - z = 0 \<or> \<bar>tx - x\<bar> = \<bar>tz - z\<bar>" using h by blast
  have "tx - x = n * dx \<and> tz - z = n * dz"
    unfolding n_def dx_def dz_def by (rule aligned_target[OF al])
  then have t: "tx = x + n * dx" "tz = z + n * dz" by simp_all
  have "\<forall>i. 0 < i \<and> i < n \<longrightarrow> bs (z + i * dz) (x + i * dx) = None"
    using h unfolding pathFree_def n_def dx_def dz_def by blast
  with n0 t tgt h have "\<exists>n>0. tx = x + n * dx \<and> tz = z + n * dz \<and> isInside tx tz
               \<and> (\<forall>i. 0 < i \<and> i < n \<longrightarrow> bs (z + i * dz) (x + i * dx) = None)
               \<and> freeOrEnemy bs tz tx col" by blast
  then have "(tx, tz) \<in> rayCells bs col dx dz (x + dx) (z + dz)"
    unfolding ray_iff[OF u src] .
  with d show "(tx, tz) \<in> slideCells bs col x z dirs"
    unfolding slideCells_def by blast
qed

lemma knightOffsets_iff:
  "(a, b) \<in> set knightOffsets \<longleftrightarrow> (\<bar>a\<bar> = 1 \<and> \<bar>b\<bar> = 2) \<or> (\<bar>a\<bar> = 2 \<and> \<bar>b\<bar> = 1)"
  unfolding knightOffsets_def by (simp add: abs_if) arith

lemma set_kingOffsets: "set kingOffsets = {(a, b). - 1 \<le> a \<and> a \<le> 1 \<and> - 1 \<le> b \<and> b \<le> 1}"
  by (auto simp: kingOffsets_def image_iff)

lemma kingOffsets_iff:
  "(a, b) \<in> set (filter (\<lambda>d. d \<noteq> (0, 0)) kingOffsets) \<longleftrightarrow> max \<bar>a\<bar> \<bar>b\<bar> = 1"
  unfolding set_filter set_kingOffsets by (simp add: max_def abs_if) arith

lemma rookDirs_iff:
  "(sgn (a::int), sgn (b::int)) \<in> set rookDirs \<longleftrightarrow> (a = 0 \<or> b = 0) \<and> (a \<noteq> 0 \<or> b \<noteq> 0)"
  using sgn_cases_int[of a] sgn_cases_int[of b] unfolding rookDirs_def by auto

lemma bishopDirs_iff:
  "(sgn (a::int), sgn (b::int)) \<in> set bishopDirs \<longleftrightarrow> a \<noteq> 0 \<and> b \<noteq> 0"
  using sgn_cases_int[of a] sgn_cases_int[of b] unfolding bishopDirs_def by auto

lemma queenDirs_iff:
  "(sgn (a::int), sgn (b::int)) \<in> set queenDirs \<longleftrightarrow> a \<noteq> 0 \<or> b \<noteq> 0"
  using sgn_cases_int[of a] sgn_cases_int[of b] unfolding queenDirs_def by auto

lemma dirs_unit:
  "\<forall>(dx, dz) \<in> set rookDirs. dx \<in> {- 1, 0, 1} \<and> dz \<in> {- 1, 0, 1} \<and> (dx \<noteq> 0 \<or> dz \<noteq> 0)"
  "\<forall>(dx, dz) \<in> set bishopDirs. dx \<in> {- 1, 0, 1} \<and> dz \<in> {- 1, 0, 1} \<and> (dx \<noteq> 0 \<or> dz \<noteq> 0)"
  "\<forall>(dx, dz) \<in> set queenDirs. dx \<in> {- 1, 0, 1} \<and> dz \<in> {- 1, 0, 1} \<and> (dx \<noteq> 0 \<or> dz \<noteq> 0)"
  by (simp_all add: rookDirs_def bishopDirs_def queenDirs_def)

lemma stepCells_iff:
  assumes "isInside tx tz"
  shows "(tx, tz) \<in> stepCells bs col x z ds \<longleftrightarrow>
         ((tx - x, tz - z) \<in> set ds \<and> freeOrEnemy bs tz tx col)"
proof
  assume "(tx, tz) \<in> stepCells bs col x z ds"
  then obtain dx dz where "tx = x + dx" "tz = z + dz" "(dx, dz) \<in> set ds"
    "freeOrEnemy bs (z + dz) (x + dx) col"
    unfolding stepCells_def by auto
  then show "(tx - x, tz - z) \<in> set ds \<and> freeOrEnemy bs tz tx col" by simp
next
  assume h: "(tx - x, tz - z) \<in> set ds \<and> freeOrEnemy bs tz tx col"
  have "tx = x + (tx - x)" "tz = z + (tz - z)" by simp_all
  with h assms show "(tx, tz) \<in> stepCells bs col x z ds"
    unfolding stepCells_def by (intro CollectI exI[of _ "tx - x"] exI[of _ "tz - z"]) simp
qed

lemma colour_tests:
  "freeOrEnemy bs tz tx (color p) = (\<not> sameColor (bs tz tx) p)"
  "enemyAt bs tz tx (color p) = otherColor (bs tz tx) p"
  by (simp_all add: freeOrEnemy_def enemyAt_def sameColor_def otherColor_def split: option.splits)

lemma own_square:
  fixes bs :: board
  assumes "bs z x = Some p" "\<not> sameColor (bs tz tx) p"
  shows "tx - x \<noteq> 0 \<or> tz - z \<noteq> 0"
proof (rule ccontr)
  assume "\<not> ?thesis"
  then have "tx = x" "tz = z" by auto
  with assms show False by (simp add: sameColor_def)
qed

lemma mem_if_single: "(a \<in> (if c then {b} else {})) = (c \<and> a = b)"
  by simp

lemma abs_one: "(\<bar>a::int\<bar> = 1) = (a = - 1 \<or> a = 1)"
  by arith

lemma pawn_case:
  fixes bs :: board
  assumes tgt: "isInside tx tz" and Some: "bs z x = Some p" and T: "type p = Pawn"
  shows "(tx, tz) \<in> genCells x z bs
         \<longleftrightarrow> pseudoOK \<lparr>fromX = x, fromZ = z, toX = tx, toZ = tz\<rparr> bs False"
proof -
  define d :: int where "d = (if color p = White then - 1 else 1)"
  define s :: int where "s = (if color p = White then 6 else 1)"
  have g: "(tx, tz) \<in> genCells x z bs \<longleftrightarrow>
           ((isInside x (z + d) \<and> bs (z + d) x = None) \<and> (tx, tz) = (x, z + d))
         \<or> ((z = s \<and> bs (z + d) x = None \<and> bs (z + 2 * d) x = None) \<and> (tx, tz) = (x, z + 2 * d))
         \<or> ((isInside (x - 1) (z + d) \<and> enemyAt bs (z + d) (x - 1) (color p)) \<and> (tx, tz) = (x - 1, z + d))
         \<or> ((isInside (x + 1) (z + d) \<and> enemyAt bs (z + d) (x + 1) (color p)) \<and> (tx, tz) = (x + 1, z + d))"
    unfolding genCells_def pawnCells_def Let_def d_def s_def
    using Some T by (simp only: option.case pieceType.case Un_iff mem_if_single) blast
  have eqs: "(tx - x = 0) = (tx = x)" "(tz - z = d) = (tz = z + d)"
    "(tz - z = 2 * d) = (tz = z + 2 * d)" "(tx - x = - 1) = (tx = x - 1)"
    "(tx - x = 1) = (tx = x + 1)" by arith+
  have a: "((isInside x (z + d) \<and> bs (z + d) x = None) \<and> (tx, tz) = (x, z + d))
           \<longleftrightarrow> (tx - x = 0 \<and> tz - z = d \<and> bs tz tx = None)"
    unfolding eqs using tgt by auto
  have b: "((z = s \<and> bs (z + d) x = None \<and> bs (z + 2 * d) x = None) \<and> (tx, tz) = (x, z + 2 * d))
           \<longleftrightarrow> (tx - x = 0 \<and> tz - z = 2 * d \<and> z = s \<and> bs (z + d) x = None \<and> bs tz tx = None)"
    unfolding eqs by auto
  have c: "((isInside (x - 1) (z + d) \<and> enemyAt bs (z + d) (x - 1) (color p)) \<and> (tx, tz) = (x - 1, z + d))
           \<longleftrightarrow> (tx - x = - 1 \<and> tz - z = d \<and> otherColor (bs tz tx) p)"
    unfolding eqs using tgt by (auto simp: colour_tests)
  have e: "((isInside (x + 1) (z + d) \<and> enemyAt bs (z + d) (x + 1) (color p)) \<and> (tx, tz) = (x + 1, z + d))
           \<longleftrightarrow> (tx - x = 1 \<and> tz - z = d \<and> otherColor (bs tz tx) p)"
    unfolding eqs using tgt by (auto simp: colour_tests)
  have p: "pseudoOK \<lparr>fromX = x, fromZ = z, toX = tx, toZ = tz\<rparr> bs False \<longleftrightarrow>
           (\<not> sameColor (bs tz tx) p \<and>
            ((tx - x = 0 \<and> bs tz tx = None \<and> (tz - z = d \<or> (tz - z = 2 * d \<and> z = s \<and> bs (z + d) x = None)))
             \<or> ((tx - x = - 1 \<or> tx - x = 1) \<and> tz - z = d \<and> otherColor (bs tz tx) p)))"
    unfolding pseudoOK_def Let_def d_def s_def
    using Some T by (simp only: option.case pieceType.case move.simps abs_one simp_thms)
  have sc: "bs tz tx = None \<Longrightarrow> \<not> sameColor (bs tz tx) p"
    "otherColor (bs tz tx) p \<Longrightarrow> \<not> sameColor (bs tz tx) p"
    by (auto simp: sameColor_def otherColor_def split: option.splits)
  show ?thesis unfolding g a b c e p using sc by blast
qed

lemma king_case:
  fixes bs :: board
  assumes tgt: "isInside tx tz" and Some: "bs z x = Some p" and T: "type p = King"
  shows "(tx, tz) \<in> genCells x z bs
         \<longleftrightarrow> pseudoOK \<lparr>fromX = x, fromZ = z, toX = tx, toZ = tz\<rparr> bs False"
proof -
  have g: "(tx, tz) \<in> genCells x z bs \<longleftrightarrow>
           ((tx - x, tz - z) \<in> set (filter (\<lambda>d. d \<noteq> (0, 0)) kingOffsets)
            \<and> freeOrEnemy bs tz tx (color p))"
    using Some T by (simp add: genCells_def stepCells_iff[OF tgt])
  have p: "pseudoOK \<lparr>fromX = x, fromZ = z, toX = tx, toZ = tz\<rparr> bs False \<longleftrightarrow>
           (\<not> sameColor (bs tz tx) p \<and> max \<bar>tx - x\<bar> \<bar>tz - z\<bar> = 1)"
    using Some T by (simp add: pseudoOK_def Let_def)
  show ?thesis unfolding g p kingOffsets_iff colour_tests by blast
qed

lemma genCells_iff_pseudoOK:
  assumes src: "isInside x z" and tgt: "isInside tx tz"
  shows "(tx, tz) \<in> genCells x z bs
         \<longleftrightarrow> pseudoOK \<lparr>fromX = x, fromZ = z, toX = tx, toZ = tz\<rparr> bs False"
proof (cases "bs z x")
  case None
  then show ?thesis by (simp add: genCells_def pseudoOK_def)
next
  case (Some p)
  note own = own_square[where bs = bs and z = z and x = x and tz = tz and tx = tx, OF Some]
  show ?thesis
  proof (cases "type p")
    case Pawn
    show ?thesis by (rule pawn_case[where bs = bs and x = x and z = z, OF tgt Some Pawn])
  next
    case Knight
    then show ?thesis
      using Some
      by (simp add: genCells_def pseudoOK_def Let_def stepCells_iff[OF tgt] knightOffsets_iff
            colour_tests) blast
  next
    case Bishop
    then show ?thesis
      using Some own
      by (simp add: genCells_def pseudoOK_def Let_def slideCells_iff[OF dirs_unit(2) src tgt]
            bishopDirs_iff colour_tests) fastforce
  next
    case Rook
    then show ?thesis
      using Some own
      by (simp add: genCells_def pseudoOK_def Let_def slideCells_iff[OF dirs_unit(1) src tgt]
            rookDirs_iff colour_tests) blast
  next
    case Queen
    then show ?thesis
      using Some own
      by (simp add: genCells_def pseudoOK_def Let_def slideCells_iff[OF dirs_unit(3) src tgt]
            queenDirs_iff colour_tests) blast
  next
    case King
    show ?thesis by (rule king_case[where bs = bs and x = x and z = z, OF tgt Some King])
  qed
qed


text \<open>
  C10.  On every board, for every source square and every destination square of the 8x8
  board: \<open>generatePseudoMoves\<close> returns a list, \<open>isPseudoLegal\<close> (with \<open>forCheck\<close> false)
  returns a verdict, and the destination is in the list exactly when the verdict is true.
  (For an empty source square the list is empty and the verdict false.)
\<close>

theorem generatePseudoMoves_agrees_isPseudoLegal:
  assumes "isInside x z" and "isInside tx tz"
  shows "\<exists>ms b. generatePseudoMoves x z bs = Some ms
           \<and> isPseudoLegal \<lparr>fromX = x, fromZ = z, toX = tx, toZ = tz\<rparr> bs False = Some b
           \<and> ((tx, tz) \<in> set ms \<longleftrightarrow> b)"
proof -
  from generatePseudoMoves_total[OF isInside_rows[OF assms(1)], of x bs]
  obtain ms where ms: "generatePseudoMoves x z bs = Some ms" "set ms = genCells x z bs" by blast
  have "isPseudoLegal \<lparr>fromX = x, fromZ = z, toX = tx, toZ = tz\<rparr> bs False
        = Some (pseudoOK \<lparr>fromX = x, fromZ = z, toX = tx, toZ = tz\<rparr> bs False)"
    using assms by (intro isPseudoLegal_inRange) (simp_all add: isInside_rows)
  moreover have "(tx, tz) \<in> set ms
                 \<longleftrightarrow> pseudoOK \<lparr>fromX = x, fromZ = z, toX = tx, toZ = tz\<rparr> bs False"
    unfolding ms(2) by (rule genCells_iff_pseudoOK[OF assms])
  ultimately show ?thesis using ms(1) by blast
qed

definition pinBoard :: board where
  \<comment> \<open>the white rook on e2 stands between its king on e1 and the black rook on e8\<close>
  "pinBoard =
     emptyBoard(0 := (emptyBoard 0)(0 := Some \<lparr>type = King, color = Black\<rparr>,
                                    4 := Some \<lparr>type = Rook, color = Black\<rparr>),
                6 := (emptyBoard 6)(4 := Some \<lparr>type = Rook, color = White\<rparr>),
                7 := (emptyBoard 7)(4 := Some \<lparr>type = King, color = White\<rparr>))"

lemma pinBoard_rook_moves:
  "generatePseudoMoves 4 6 pinBoard =
     Some [(5, 6), (6, 6), (7, 6), (3, 6), (2, 6), (1, 6), (0, 6),
           (4, 5), (4, 4), (4, 3), (4, 2), (4, 1), (4, 0)]"
  by code_simp

lemma pinBoard_rook_takes:
  "isPseudoLegal \<lparr>fromX = 4, fromZ = 6, toX = 4, toZ = 0\<rparr> pinBoard False = Some True"
  by code_simp

lemma pinBoard_rook_blocked:
  "isPseudoLegal \<lparr>fromX = 4, fromZ = 6, toX = 4, toZ = 7\<rparr> pinBoard False = Some False"
  by code_simp

theorem generatePseudoMoves_agrees_isPseudoLegal_witness:
  "isInside 4 6 \<and> isInside 4 0 \<and> isInside 4 7
   \<and> (\<exists>ms. generatePseudoMoves 4 6 pinBoard = Some ms \<and> (4, 0) \<in> set ms \<and> (4, 7) \<notin> set ms)
   \<and> isPseudoLegal \<lparr>fromX = 4, fromZ = 6, toX = 4, toZ = 0\<rparr> pinBoard False = Some True
   \<and> isPseudoLegal \<lparr>fromX = 4, fromZ = 6, toX = 4, toZ = 7\<rparr> pinBoard False = Some False"
proof -
  have i: "isInside 4 6" "isInside 4 0" "isInside 4 7" by (simp_all add: isInside_def)
  from generatePseudoMoves_agrees_isPseudoLegal[OF i(1) i(2), of pinBoard] pinBoard_rook_takes
  obtain ms where a: "generatePseudoMoves 4 6 pinBoard = Some ms" "(4, 0) \<in> set ms" by auto
  from generatePseudoMoves_agrees_isPseudoLegal[OF i(1) i(3), of pinBoard] pinBoard_rook_blocked a(1)
  have b: "(4, 7) \<notin> set ms" by auto
  from a b i pinBoard_rook_takes pinBoard_rook_blocked show ?thesis by blast
qed

section \<open>The legal moves are the moves that the legality filter accepts\<close>

lemma legalMoves_eq:
  "legalMoves bs player =
     {m. isInside (fromX m) (fromZ m) \<and> isInside (toX m) (toZ m)
         \<and> isLegalMove bs m player = Some True}"
proof (rule set_eqI)
  fix m :: move
  have rec: "\<lparr>fromX = fromX m, fromZ = fromZ m, toX = toX m, toZ = toZ m\<rparr> = m" by simp
  show "m \<in> legalMoves bs player \<longleftrightarrow>
        m \<in> {m. isInside (fromX m) (fromZ m) \<and> isInside (toX m) (toZ m)
                \<and> isLegalMove bs m player = Some True}"
  proof
    assume "m \<in> legalMoves bs player"
    then obtain z x where sq: "(z, x) \<in> set squares" and lf: "m \<in> legalFrom bs player z x"
      unfolding legalMoves_def by auto
    from sq have ins: "isInside x z" by (simp add: set_squares)
    from lf have m: "fromX m = x" "fromZ m = z" "(toX m, toZ m) \<in> genCells x z bs"
      "legalOK bs m player" by (simp_all add: legalFrom_def)
    have to: "isInside (toX m) (toZ m)" by (rule genCells_inside[OF ins m(3)])
    have "isLegalMove bs m player = Some (legalOK bs m player)"
      using ins to m(1,2) by (intro isLegalMove_inRange) (simp_all add: isInside_rows)
    with m ins to show "m \<in> {m. isInside (fromX m) (fromZ m) \<and> isInside (toX m) (toZ m)
                \<and> isLegalMove bs m player = Some True}" by simp
  next
    assume "m \<in> {m. isInside (fromX m) (fromZ m) \<and> isInside (toX m) (toZ m)
                \<and> isLegalMove bs m player = Some True}"
    then have ins: "isInside (fromX m) (fromZ m)" and to: "isInside (toX m) (toZ m)"
      and legal: "isLegalMove bs m player = Some True" by simp_all
    have "isLegalMove bs m player = Some (legalOK bs m player)"
      using ins to by (intro isLegalMove_inRange) (simp_all add: isInside_rows)
    with legal have l: "legalOK bs m player" by simp
    then have "pseudoOK \<lparr>fromX = fromX m, fromZ = fromZ m, toX = toX m, toZ = toZ m\<rparr> bs False"
      unfolding rec by (simp add: legalOK_def)
    then have "(toX m, toZ m) \<in> genCells (fromX m) (fromZ m) bs"
      unfolding genCells_iff_pseudoOK[OF ins to] .
    with l have "m \<in> legalFrom bs player (fromZ m) (fromX m)" by (simp add: legalFrom_def)
    moreover have "(fromZ m, fromX m) \<in> set squares" using ins by (simp add: set_squares)
    ultimately show "m \<in> legalMoves bs player" unfolding legalMoves_def by blast
  qed
qed

definition staleBoard :: board where
  \<comment> \<open>black king on a8, white queen on c7, white king on h1: Black to move has no move and
      is not in check\<close>
  "staleBoard =
     emptyBoard(0 := (emptyBoard 0)(0 := Some \<lparr>type = King, color = Black\<rparr>),
                1 := (emptyBoard 1)(2 := Some \<lparr>type = Queen, color = White\<rparr>),
                7 := (emptyBoard 7)(7 := Some \<lparr>type = King, color = White\<rparr>))"

definition staleState :: engine where
  "staleState = \<lparr>boardState = staleBoard, currentPlayer = Black, gameState = Playing,
                 moveHistory = [], captured = (\<lambda>c. []), statusText = GameInProgress\<rparr>"

lemma staleBoard_no_moves: "allLegalMovesFor staleBoard Black = Some []"
  by code_simp

lemma staleBoard_no_check: "isKingInCheck staleBoard Black = Some False"
  by code_simp

lemma initialBoard_has_moves: "allLegalMovesFor initialBoard White \<noteq> Some []"
  by code_simp

text \<open>
  C4.  \<open>evaluateGameState\<close>, which \<open>performMove\<close> calls after it has flipped the turn,
  always returns.  The list that \<open>allLegalMovesFor\<close> builds for the side to move holds
  exactly the moves between squares of the board that \<open>isLegalMove\<close> accepts for that
  side.  When there is no such move the phase becomes ended, with the status "checkmated"
  for that side if \<open>isKingInCheck\<close> returns true for it and "stalemate" otherwise; when
  there is such a move the phase stays what it was (so in-progress stays in-progress).
  The board and the side to move are left alone.
\<close>

theorem evaluateGameState_classifies:
  "\<exists>legal chk st'.
      allLegalMovesFor (boardState st) (currentPlayer st) = Some legal
    \<and> set legal = {m. isInside (fromX m) (fromZ m) \<and> isInside (toX m) (toZ m)
                      \<and> isLegalMove (boardState st) m (currentPlayer st) = Some True}
    \<and> isKingInCheck (boardState st) (currentPlayer st) = Some chk
    \<and> evaluateGameState st = Some st'
    \<and> (legal = [] \<longrightarrow> gameState st' = Ended
          \<and> statusText st' = (if chk then Checkmated (currentPlayer st) else Stalemate))
    \<and> (legal \<noteq> [] \<longrightarrow> gameState st' = gameState st \<and> statusText st' = GameInProgress)
    \<and> boardState st' = boardState st \<and> currentPlayer st' = currentPlayer st"
proof -
  from allLegalMovesFor_total[of "boardState st" "currentPlayer st"] obtain legal where
    l: "allLegalMovesFor (boardState st) (currentPlayer st) = Some legal"
       "set legal = legalMoves (boardState st) (currentPlayer st)" by blast
  have e: "evaluateGameState st =
         Some (if legal = []
               then st\<lparr>gameState := Ended,
                       statusText := (if inCheck (boardState st) (currentPlayer st)
                                      then Checkmated (currentPlayer st) else Stalemate)\<rparr>
               else st\<lparr>statusText := GameInProgress\<rparr>)"
    using evaluateGameState_total[of st] l(1) by auto
  show ?thesis
    using l(1) l(2)[unfolded legalMoves_eq] e
      isKingInCheck_total[of "boardState st" "currentPlayer st"] by auto
qed

theorem evaluateGameState_classifies_witness:
  "(\<exists>st'. evaluateGameState mateState = Some st' \<and> gameState st' = Ended
         \<and> statusText st' = Checkmated Black)
   \<and> (\<exists>st'. evaluateGameState staleState = Some st' \<and> gameState st' = Ended
         \<and> statusText st' = Stalemate)
   \<and> (\<exists>st'. evaluateGameState initialState = Some st' \<and> gameState st' = Playing
         \<and> statusText st' = GameInProgress)
   \<and> isLegalMove initialBoard \<lparr>fromX = 4, fromZ = 6, toX = 4, toZ = 4\<rparr> White = Some True"
proof -
  have a: "\<exists>st'. evaluateGameState mateState = Some st' \<and> gameState st' = Ended
         \<and> statusText st' = Checkmated Black"
    using evaluateGameState_classifies[of mateState] mateBoard_no_moves mateBoard_check
    by (auto simp: mateState_def)
  have b: "\<exists>st'. evaluateGameState staleState = Some st' \<and> gameState st' = Ended
         \<and> statusText st' = Stalemate"
    using evaluateGameState_classifies[of staleState] staleBoard_no_moves staleBoard_no_check
    by (auto simp: staleState_def)
  have c: "\<exists>st'. evaluateGameState initialState = Some st' \<and> gameState st' = Playing
         \<and> statusText st' = GameInProgress"
    using evaluateGameState_classifies[of initialState] initialBoard_has_moves
    by (auto simp: initialState_def)
  from a b c e4_legal show ?thesis by blast
qed

section \<open>The legality filter, spelled out\<close>

lemma pinned_rook_sideways:
  "isLegalMove pinBoard \<lparr>fromX = 4, fromZ = 6, toX = 5, toZ = 6\<rparr> White = Some False"
  by code_simp

lemma pinned_rook_sideways_pseudo:
  "isPseudoLegal \<lparr>fromX = 4, fromZ = 6, toX = 5, toZ = 6\<rparr> pinBoard False = Some True"
  by code_simp

lemma pinned_rook_forward:
  "isLegalMove pinBoard \<lparr>fromX = 4, fromZ = 6, toX = 4, toZ = 3\<rparr> White = Some True"
  by code_simp

text \<open>
  C1.  For a move whose two squares are on the board and any colour \<open>player\<close>,
  \<open>isLegalMove\<close> returns, and it returns true exactly when
  (a) the source square of the live board holds a piece of colour \<open>player\<close>,
  (b) the move is pseudo-legal on the live board (\<open>pseudoOK\<close>, which is what
      \<open>isPseudoLegal\<close> returns there), and
  (c) on the board \<open>simulated (cloneBoard live) mv\<close> the king of \<open>player\<close> is not attacked
      (\<open>inCheck\<close>, which is what \<open>isKingInCheck\<close> returns there).
  That board is what \<open>applyMoveOnClone\<close> returns on the copy; it is given cell by cell
  (source square empty, the moved piece, promoted if it is a pawn reaching row 0 or 7, on
  the destination, every other square as before) and it agrees on all 64 squares with
  the same change made to the live board.
\<close>

theorem isLegalMove_iff:
  assumes "isInside (fromX mv) (fromZ mv)" and "isInside (toX mv) (toZ mv)"
  shows "isLegalMove live mv player =
           Some ((\<exists>f. live (fromZ mv) (fromX mv) = Some f \<and> color f = player)
                 \<and> pseudoOK mv live False
                 \<and> \<not> inCheck (simulated (cloneBoard live) mv) player)
       \<and> isPseudoLegal mv live False = Some (pseudoOK mv live False)
       \<and> (pseudoOK mv live False \<longrightarrow>
            applyMoveOnClone (cloneBoard live) mv = Some (simulated (cloneBoard live) mv))
       \<and> isKingInCheck (simulated (cloneBoard live) mv) player
            = Some (inCheck (simulated (cloneBoard live) mv) player)
       \<and> (\<forall>z x. isInside x z \<longrightarrow>
             simulated (cloneBoard live) mv z x
             = (if z = fromZ mv \<and> x = fromX mv then None
                else if z = toZ mv \<and> x = toX mv then
                  (case live (fromZ mv) (fromX mv) of
                     None \<Rightarrow> None
                   | Some f \<Rightarrow> if type f = Pawn \<and> (toZ mv = 0 \<or> toZ mv = 7)
                               then Some \<lparr>type = Queen, color = color f\<rparr> else Some f)
                else live z x))"
proof (intro conjI allI impI)
  have rf: "rowExists (fromZ mv)" and rt: "rowExists (toZ mv)"
    using assms by (simp_all add: isInside_rows)
  have a: "(case live (fromZ mv) (fromX mv) of None \<Rightarrow> False | Some f \<Rightarrow> color f = player)
           = (\<exists>f. live (fromZ mv) (fromX mv) = Some f \<and> color f = player)"
    by (simp split: option.splits)
  show "isLegalMove live mv player =
           Some ((\<exists>f. live (fromZ mv) (fromX mv) = Some f \<and> color f = player)
                 \<and> pseudoOK mv live False
                 \<and> \<not> inCheck (simulated (cloneBoard live) mv) player)"
    using isLegalMove_inRange[OF rf rt, of live player] unfolding legalOK_def a .
  show "isPseudoLegal mv live False = Some (pseudoOK mv live False)"
    by (rule isPseudoLegal_inRange[OF rf rt])
  show "isKingInCheck (simulated (cloneBoard live) mv) player
            = Some (inCheck (simulated (cloneBoard live) mv) player)"
    by (rule isKingInCheck_total)
  show "applyMoveOnClone (cloneBoard live) mv = Some (simulated (cloneBoard live) mv)"
    if "pseudoOK mv live False"
    by (rule applyMoveOnClone_inRange[OF rf rt pseudoOK_moves[OF that]])
  fix z x assume "isInside x z"
  then show "simulated (cloneBoard live) mv z x
             = (if z = fromZ mv \<and> x = fromX mv then None
                else if z = toZ mv \<and> x = toX mv then
                  (case live (fromZ mv) (fromX mv) of
                     None \<Rightarrow> None
                   | Some f \<Rightarrow> if type f = Pawn \<and> (toZ mv = 0 \<or> toZ mv = 7)
                               then Some \<lparr>type = Queen, color = color f\<rparr> else Some f)
                else live z x)"
    using assms(1)
    by (auto simp: simulated_def cloneBoard_apply promotes_def split: option.splits)
qed

theorem isLegalMove_iff_witness:
  "isInside 4 6 \<and> isInside 5 6 \<and> isInside 4 3
   \<and> isLegalMove pinBoard \<lparr>fromX = 4, fromZ = 6, toX = 5, toZ = 6\<rparr> White = Some False
   \<and> pseudoOK \<lparr>fromX = 4, fromZ = 6, toX = 5, toZ = 6\<rparr> pinBoard False
   \<and> inCheck (simulated (cloneBoard pinBoard) \<lparr>fromX = 4, fromZ = 6, toX = 5, toZ = 6\<rparr>) White
   \<and> isLegalMove pinBoard \<lparr>fromX = 4, fromZ = 6, toX = 4, toZ = 3\<rparr> White = Some True
   \<and> pseudoOK \<lparr>fromX = 4, fromZ = 6, toX = 4, toZ = 3\<rparr> pinBoard False
   \<and> \<not> inCheck (simulated (cloneBoard pinBoard) \<lparr>fromX = 4, fromZ = 6, toX = 4, toZ = 3\<rparr>) White"
proof -
  have i: "isInside 4 6" "isInside 5 6" "isInside 4 3" by (simp_all add: isInside_def)
  have own: "pinBoard 6 4 = Some \<lparr>type = Rook, color = White\<rparr>"
    by (simp add: pinBoard_def)
  have s: "isLegalMove pinBoard \<lparr>fromX = 4, fromZ = 6, toX = 5, toZ = 6\<rparr> White = Some False
     \<and> pseudoOK \<lparr>fromX = 4, fromZ = 6, toX = 5, toZ = 6\<rparr> pinBoard False
     \<and> inCheck (simulated (cloneBoard pinBoard) \<lparr>fromX = 4, fromZ = 6, toX = 5, toZ = 6\<rparr>) White"
    using isLegalMove_iff[of "\<lparr>fromX = 4, fromZ = 6, toX = 5, toZ = 6\<rparr>" pinBoard White]
      i own pinned_rook_sideways pinned_rook_sideways_pseudo by simp
  have f: "isLegalMove pinBoard \<lparr>fromX = 4, fromZ = 6, toX = 4, toZ = 3\<rparr> White = Some True
     \<and> pseudoOK \<lparr>fromX = 4, fromZ = 6, toX = 4, toZ = 3\<rparr> pinBoard False
     \<and> \<not> inCheck (simulated (cloneBoard pinBoard) \<lparr>fromX = 4, fromZ = 6, toX = 4, toZ = 3\<rparr>) White"
    using isLegalMove_iff[of "\<lparr>fromX = 4, fromZ = 6, toX = 4, toZ = 3\<rparr>" pinBoard White]
      i own pinned_rook_forward by simp
  from i s f show ?thesis by blast
qed

section \<open>The search against its description\<close>

text \<open>
  The three definitions that follow are written from the description of the search, not
  from the source: the replies of White are its legal moves on the position that results
  from the simulated move (\<open>allLegalMovesFor\<close> on \<open>clone\<close>).  Everything else is as in
  \<open>worstFor\<close>, \<open>bestOf\<close> and \<open>chooseAIMove\<close>.
\<close>

definition spec_worstFor :: "board \<Rightarrow> move \<Rightarrow> jsnum option" where
  "spec_worstFor live m =
     do { clone \<leftarrow> applyMoveOnClone (cloneBoard live) m;
          oppMoves \<leftarrow> allLegalMovesFor clone White;
          if length oppMoves = 0 then Some (Num (evaluateMaterial clone))
          else forEachM (\<lambda>om worst.
                           do { c2 \<leftarrow> applyMoveOnClone (cloneBoard clone) om;
                                Some (jsMax worst (Num (evaluateMaterial c2))) })
                        oppMoves NegInfinity }"

definition spec_bestOf :: "board \<Rightarrow> move list \<Rightarrow> (move option \<times> jsnum) option" where
  "spec_bestOf live moves =
     forEachM (\<lambda>m (best, bestScore).
                 do { worst \<leftarrow> spec_worstFor live m;
                      Some (if jsLess worst bestScore then (Some m, worst) else (best, bestScore)) })
              moves (None, Infinity)"

definition spec_chooseAIMove :: "board \<Rightarrow> move option option" where
  "spec_chooseAIMove live =
     do { moves \<leftarrow> allLegalMovesFor live Black;
          if length moves = 0 then Some None
          else do { (best, bestScore) \<leftarrow> spec_bestOf live moves; Some best } }"

definition tradeBoard :: board where
  \<comment> \<open>Black: king a8, pawn e4.  White: king h1, pawn d3 guarded by the pawn c2.\<close>
  "tradeBoard =
     emptyBoard(0 := (emptyBoard 0)(0 := Some \<lparr>type = King, color = Black\<rparr>),
                4 := (emptyBoard 4)(4 := Some \<lparr>type = Pawn, color = Black\<rparr>),
                5 := (emptyBoard 5)(3 := Some \<lparr>type = Pawn, color = White\<rparr>),
                6 := (emptyBoard 6)(2 := Some \<lparr>type = Pawn, color = White\<rparr>),
                7 := (emptyBoard 7)(7 := Some \<lparr>type = King, color = White\<rparr>))"

lemma trade_code_choice:
  "chooseAIMove tradeBoard = Some (Some \<lparr>fromX = 4, fromZ = 4, toX = 3, toZ = 5\<rparr>)"
  by code_simp

lemma trade_spec_choice:
  "spec_chooseAIMove tradeBoard = Some (Some \<lparr>fromX = 4, fromZ = 4, toX = 4, toZ = 5\<rparr>)"
  by code_simp

lemma trade_code_score:
  "worstFor tradeBoard \<lparr>fromX = 4, fromZ = 4, toX = 3, toZ = 5\<rparr> = Some (Num 0)"
  by code_simp

lemma trade_spec_score:
  "spec_worstFor tradeBoard \<lparr>fromX = 4, fromZ = 4, toX = 3, toZ = 5\<rparr> = Some (Num 100)"
  by code_simp

lemma trade_replies_code:
  "applyMoveOnClone (cloneBoard tradeBoard) \<lparr>fromX = 4, fromZ = 4, toX = 3, toZ = 5\<rparr>
     \<bind> opponentMoves tradeBoard
   = Some [\<lparr>fromX = 2, fromZ = 6, toX = 2, toZ = 5\<rparr>,
           \<lparr>fromX = 2, fromZ = 6, toX = 2, toZ = 4\<rparr>,
           \<lparr>fromX = 7, fromZ = 7, toX = 6, toZ = 6\<rparr>,
           \<lparr>fromX = 7, fromZ = 7, toX = 6, toZ = 7\<rparr>,
           \<lparr>fromX = 7, fromZ = 7, toX = 7, toZ = 6\<rparr>]"
  by code_simp

lemma trade_replies_legal:
  "applyMoveOnClone (cloneBoard tradeBoard) \<lparr>fromX = 4, fromZ = 4, toX = 3, toZ = 5\<rparr>
     \<bind> (\<lambda>clone. isLegalMove clone \<lparr>fromX = 2, fromZ = 6, toX = 3, toZ = 5\<rparr> White)
   = Some True"
  by code_simp

text \<open>
  C3.  The search does not enumerate the replies of White on the position that results
  from the simulated move: \<open>makeBestAIMove\<close> generates the candidates on \<open>clone\<close> but
  filters them with \<open>isLegalMove\<close>, which reads the live board.  On \<open>tradeBoard\<close> the pawn
  capture e4xd3 is answered by c2xd3; that recapture is legal on the clone, yet it is not
  among the replies the search considers, because on the live board d3 still holds a white
  pawn.  So the search scores the capture 0 and plays it, where the described search
  scores it 100 and plays the earlier move e4-e3 of the same score.
\<close>

theorem makeBestAIMove_misses_recapture:
  "chooseAIMove tradeBoard = Some (Some \<lparr>fromX = 4, fromZ = 4, toX = 3, toZ = 5\<rparr>)
   \<and> spec_chooseAIMove tradeBoard = Some (Some \<lparr>fromX = 4, fromZ = 4, toX = 4, toZ = 5\<rparr>)
   \<and> worstFor tradeBoard \<lparr>fromX = 4, fromZ = 4, toX = 3, toZ = 5\<rparr> = Some (Num 0)
   \<and> spec_worstFor tradeBoard \<lparr>fromX = 4, fromZ = 4, toX = 3, toZ = 5\<rparr> = Some (Num 100)
   \<and> applyMoveOnClone (cloneBoard tradeBoard) \<lparr>fromX = 4, fromZ = 4, toX = 3, toZ = 5\<rparr>
         \<bind> opponentMoves tradeBoard
       = Some [\<lparr>fromX = 2, fromZ = 6, toX = 2, toZ = 5\<rparr>,
               \<lparr>fromX = 2, fromZ = 6, toX = 2, toZ = 4\<rparr>,
               \<lparr>fromX = 7, fromZ = 7, toX = 6, toZ = 6\<rparr>,
               \<lparr>fromX = 7, fromZ = 7, toX = 6, toZ = 7\<rparr>,
               \<lparr>fromX = 7, fromZ = 7, toX = 7, toZ = 6\<rparr>]
   \<and> applyMoveOnClone (cloneBoard tradeBoard) \<lparr>fromX = 4, fromZ = 4, toX = 3, toZ = 5\<rparr>
         \<bind> (\<lambda>clone. isLegalMove clone \<lparr>fromX = 2, fromZ = 6, toX = 3, toZ = 5\<rparr> White)
       = Some True"
  using trade_code_choice trade_spec_choice trade_code_score trade_spec_score
    trade_replies_code trade_replies_legal
  by (intro conjI)

theorem makeBestAIMove_misses_recapture_witness:
  "chooseAIMove tradeBoard \<noteq> spec_chooseAIMove tradeBoard"
  using makeBestAIMove_misses_recapture by simp

section \<open>The search reads only the 64 squares\<close>

definition sameSquares :: "board \<Rightarrow> board \<Rightarrow> bool" where
  \<comment> \<open>the same piece type and colour, or nothing, on every square of the 8x8 board\<close>
  "sameSquares b1 b2 = (\<forall>z x. isInside x z \<longrightarrow> b1 z x = b2 z x)"

lemma sameSquares_cell: "sameSquares b1 b2 \<Longrightarrow> isInside x z \<Longrightarrow> b1 z x = b2 z x"
  by (simp add: sameSquares_def)

lemma cloneBoard_cong: "sameSquares b1 b2 \<Longrightarrow> cloneBoard b1 = cloneBoard b2"
  by (intro ext) (simp add: cloneBoard_apply sameSquares_def)

lemma forEachM_cong:
  assumes "\<forall>a \<in> set xs. \<forall>s. f a s = g a s"
  shows "forEachM f xs s = forEachM g xs s"
  using assms by (induction xs arbitrary: s) (simp_all split: option.splits)

lemma pathFree_cong:
  assumes same: "sameSquares b1 b2" and src: "isInside x z" and tgt: "isInside tx tz"
    and al: "tx - x = 0 \<or> tz - z = 0 \<or> \<bar>tx - x\<bar> = \<bar>tz - z\<bar>"
  shows "pathFree b1 x z tx tz = pathFree b2 x z tx tz"
proof -
  define n where "n = max \<bar>tx - x\<bar> \<bar>tz - z\<bar>"
  define dx where "dx = sgn (tx - x)"
  define dz where "dz = sgn (tz - z)"
  have "tx - x = n * dx \<and> tz - z = n * dz"
    unfolding n_def dx_def dz_def by (rule aligned_target[OF al])
  then have t: "tx = x + n * dx" "tz = z + n * dz" by simp_all
  have u: "dx \<in> {- 1, 0, 1}" "dz \<in> {- 1, 0, 1}" unfolding dx_def dz_def by (rule sgn_unit)+
  have cell: "b1 (z + k * dz) (x + k * dx) = b2 (z + k * dz) (x + k * dx)" if "0 < k \<and> k < n" for k
  proof -
    have "0 \<le> k" "k \<le> n" using that by simp_all
    from inside_between[OF src tgt[unfolded t] u this]
    show ?thesis by (rule sameSquares_cell[OF same])
  qed
  show ?thesis
    unfolding pathFree_def n_def[symmetric] dx_def[symmetric] dz_def[symmetric]
    using cell by auto
qed

lemma pseudoOK_cong:
  assumes same: "sameSquares b1 b2"
    and src: "isInside (fromX mv) (fromZ mv)" and tgt: "isInside (toX mv) (toZ mv)"
  shows "pseudoOK mv b1 fc = pseudoOK mv b2 fc"
proof -
  have fr: "b1 (fromZ mv) (fromX mv) = b2 (fromZ mv) (fromX mv)"
    by (rule sameSquares_cell[OF same src])
  have tg: "b1 (toZ mv) (toX mv) = b2 (toZ mv) (toX mv)"
    by (rule sameSquares_cell[OF same tgt])
  have mid: "b1 (fromZ mv + d) (fromX mv) = b2 (fromZ mv + d) (fromX mv)"
    if "(fromZ mv = 6 \<and> d = - 1) \<or> (fromZ mv = 1 \<and> d = 1)" for d
    using that src by (intro sameSquares_cell[OF same]) (auto simp: isInside_def)
  note pf = pathFree_cong[OF same src tgt]
  show ?thesis
  proof (cases "b2 (fromZ mv) (fromX mv)")
    case None
    then show ?thesis using fr by (simp add: pseudoOK_def)
  next
    case (Some p)
    show ?thesis
    proof (cases "type p")
      case Pawn
      show ?thesis
      proof (cases "color p")
        case White
        then show ?thesis
          using Some Pawn fr tg mid[of "- 1"]
          by (auto simp: pseudoOK_def Let_def)
      next
        case Black
        then show ?thesis
          using Some Pawn fr tg mid[of 1]
          by (auto simp: pseudoOK_def Let_def)
      qed
    next
      case Knight
      then show ?thesis using Some fr tg by (simp add: pseudoOK_def Let_def)
    next
      case Bishop
      then show ?thesis using Some fr tg pf by (auto simp: pseudoOK_def Let_def)
    next
      case Rook
      then show ?thesis using Some fr tg pf by (auto simp: pseudoOK_def Let_def)
    next
      case Queen
      then show ?thesis using Some fr tg pf by (auto simp: pseudoOK_def Let_def)
    next
      case King
      then show ?thesis using Some fr tg by (simp add: pseudoOK_def Let_def)
    qed
  qed
qed

lemma isLegalMove_cong:
  assumes same: "sameSquares b1 b2"
    and src: "isInside (fromX mv) (fromZ mv)" and tgt: "isInside (toX mv) (toZ mv)"
  shows "isLegalMove b1 mv player = isLegalMove b2 mv player"
proof -
  have rows: "rowExists (fromZ mv)" "rowExists (toZ mv)"
    using src tgt by (simp_all add: isInside_rows)
  have "legalOK b1 mv player = legalOK b2 mv player"
    unfolding legalOK_def cloneBoard_cong[OF same] pseudoOK_cong[OF same src tgt]
      sameSquares_cell[OF same src] ..
  then show ?thesis
    by (simp add: isLegalMove_inRange[OF rows])
qed


lemma slide_cong_bounded:
  assumes same: "sameSquares b1 b2"
    and "\<not> isInside (nx + int n * dx) (nz + int n * dz)"
  shows "slide b1 col dx dz nx nz moves = slide b2 col dx dz nx nz moves"
  using assms(2)
proof (induction n arbitrary: nx nz moves)
  case 0
  then have out: "\<not> isInside nx nz" by simp
  have "slide b1 col dx dz nx nz moves = Some moves"
    by (subst slide.simps) (simp add: out)
  moreover have "slide b2 col dx dz nx nz moves = Some moves"
    by (subst slide.simps) (simp add: out)
  ultimately show ?case by simp
next
  case (Suc n)
  show ?case
  proof (cases "isInside nx nz")
    case False
    have "slide b1 col dx dz nx nz moves = Some moves"
      by (subst slide.simps) (simp add: False)
    moreover have "slide b2 col dx dz nx nz moves = Some moves"
      by (subst slide.simps) (simp add: False)
    ultimately show ?thesis by simp
  next
    case True
    have cell: "b1 nz nx = b2 nz nx" by (rule sameSquares_cell[OF same True])
    have "\<not> isInside (nx + dx + int n * dx) (nz + dz + int n * dz)"
      using Suc.prems by (simp add: algebra_simps)
    note ih = Suc.IH[OF this, of "moves @ [(nx, nz)]"]
    have "slide b1 col dx dz nx nz moves =
          (if b1 nz nx = None then slide b1 col dx dz (nx + dx) (nz + dz) (moves @ [(nx, nz)])
           else Some (if enemyAt b1 nz nx col then moves @ [(nx, nz)] else moves))"
      by (subst slide.simps) (simp add: True)
    also have "\<dots> = (if b2 nz nx = None then slide b2 col dx dz (nx + dx) (nz + dz) (moves @ [(nx, nz)])
           else Some (if enemyAt b2 nz nx col then moves @ [(nx, nz)] else moves))"
      unfolding ih enemyAt_def cell ..
    also have "\<dots> = slide b2 col dx dz nx nz moves"
      by (subst (2) slide.simps) (simp add: True)
    finally show ?thesis .
  qed
qed

lemma slide_cong:
  assumes same: "sameSquares b1 b2" and "dx \<noteq> 0 \<or> dz \<noteq> 0"
  shows "slide b1 col dx dz nx nz moves = slide b2 col dx dz nx nz moves"
proof (cases "isInside nx nz")
  case False
  then have "\<not> isInside (nx + int 0 * dx) (nz + int 0 * dz)" by simp
  then show ?thesis by (rule slide_cong_bounded[OF same])
next
  case True
  have "\<not> isInside (nx + int 8 * dx) (nz + int 8 * dz)"
    using True assms(2) unfolding isInside_def by auto
  then show ?thesis by (rule slide_cong_bounded[OF same])
qed

lemma slides_cong:
  assumes same: "sameSquares b1 b2" and "\<forall>(dx, dz) \<in> set dirs. dx \<noteq> 0 \<or> dz \<noteq> 0"
  shows "forEachM (\<lambda>(dx, dz) moves. slide b1 col dx dz (x + dx) (z + dz) moves) dirs m
         = forEachM (\<lambda>(dx, dz) moves. slide b2 col dx dz (x + dx) (z + dz) moves) dirs m"
proof (rule forEachM_cong, intro ballI allI)
  fix a s assume "a \<in> set dirs"
  then obtain dx dz where a: "a = (dx, dz)" "dx \<noteq> 0 \<or> dz \<noteq> 0" using assms(2) by (cases a) auto
  show "(case a of (dx, dz) \<Rightarrow> \<lambda>moves. slide b1 col dx dz (x + dx) (z + dz) moves) s
        = (case a of (dx, dz) \<Rightarrow> \<lambda>moves. slide b2 col dx dz (x + dx) (z + dz) moves) s"
    unfolding a(1) using slide_cong[OF same a(2)] by simp
qed

lemma stepTo_cong:
  assumes same: "sameSquares b1 b2"
  shows "stepTo b1 col x z = stepTo b2 col x z"
proof (intro ext)
  fix d :: "int \<times> int" and m :: "(int \<times> int) list"
  obtain dx dz where d: "d = (dx, dz)" by (cases d)
  have "(isInside (x + dx) (z + dz) \<and> freeOrEnemy b1 (z + dz) (x + dx) col)
        = (isInside (x + dx) (z + dz) \<and> freeOrEnemy b2 (z + dz) (x + dx) col)"
    using sameSquares_cell[OF same, of "x + dx" "z + dz"] by (auto simp: freeOrEnemy_def)
  then show "stepTo b1 col x z d m = stepTo b2 col x z d m"
    unfolding d stepTo_def Let_def by simp
qed

lemma generatePseudoMoves_by_type:
  assumes "rowExists z" "bs z x = Some p"
  shows "type p = Knight \<Longrightarrow>
           generatePseudoMoves x z bs = Some (fold (stepTo bs (color p) x z) knightOffsets [])"
    and "type p = King \<Longrightarrow>
           generatePseudoMoves x z bs =
             Some (fold (\<lambda>(dx, dz) moves. if dx = 0 \<and> dz = 0 then moves
                                          else stepTo bs (color p) x z (dx, dz) moves) kingOffsets [])"
    and "type p = Rook \<Longrightarrow>
           generatePseudoMoves x z bs =
             forEachM (\<lambda>(dx, dz) moves. slide bs (color p) dx dz (x + dx) (z + dz) moves) rookDirs []"
    and "type p = Bishop \<Longrightarrow>
           generatePseudoMoves x z bs =
             forEachM (\<lambda>(dx, dz) moves. slide bs (color p) dx dz (x + dx) (z + dz) moves) bishopDirs []"
    and "type p = Queen \<Longrightarrow>
           generatePseudoMoves x z bs =
             forEachM (\<lambda>(dx, dz) moves. slide bs (color p) dx dz (x + dx) (z + dz) moves) queenDirs []"
  using assms by (simp_all add: generatePseudoMoves_def at_def del: fold.simps forEachM.simps)


definition pawnMoves :: "board \<Rightarrow> color \<Rightarrow> int \<Rightarrow> int \<Rightarrow> (int \<times> int) list" where
  \<comment> \<open>the list that \<open>generatePseudoMoves\<close> returns for a pawn of colour \<open>col\<close> on \<open>(x, z)\<close>\<close>
  "pawnMoves bs col x z =
     (let dir = (if col = White then - 1 else 1);
          moves1 = (if isInside x (z + dir) \<and> bs (z + dir) x = None
                    then [(x, z + dir)] else []);
          start = (if col = White then 6 else 1);
          moves2 = (if z = start \<and> bs (z + dir) x = None \<and> bs (z + 2 * dir) x = None
                    then moves1 @ [(x, z + 2 * dir)] else moves1)
      in fold (\<lambda>(nx, nz) moves.
                 if isInside nx nz \<and> enemyAt bs nz nx col
                 then moves @ [(nx, nz)] else moves)
              [(x - 1, z + dir), (x + 1, z + dir)] moves2)"

lemma generatePseudoMoves_pawn_form:
  assumes "rowExists z" "bs z x = Some p" "type p = Pawn"
  shows "generatePseudoMoves x z bs = Some (pawnMoves bs (color p) x z)"
  using assms
  by (simp add: generatePseudoMoves_def pawnMoves_def at_def Let_def del: fold.simps)

lemma pawnMoves_cong:
  assumes same: "sameSquares b1 b2" and src: "isInside x z"
  shows "pawnMoves b1 col x z = pawnMoves b2 col x z"
proof -
  have c1: "(isInside x (z + d) \<and> b1 (z + d) x = None) = (isInside x (z + d) \<and> b2 (z + d) x = None)"
    for d using sameSquares_cell[OF same, of x "z + d"] by auto
  have c2: "(z = s \<and> b1 (z + d) x = None \<and> b1 (z + 2 * d) x = None)
            = (z = s \<and> b2 (z + d) x = None \<and> b2 (z + 2 * d) x = None)"
    if "(s = 6 \<and> d = - 1) \<or> (s = 1 \<and> d = 1)" for s d
  proof (cases "z = s")
    case False
    then show ?thesis by simp
  next
    case True
    have "isInside x (z + d)" "isInside x (z + 2 * d)"
      using that True src by (auto simp: isInside_def)
    then show ?thesis
      using sameSquares_cell[OF same, of x "z + d"] sameSquares_cell[OF same, of x "z + 2 * d"]
      by simp
  qed
  have c3: "(\<lambda>(nx, nz) moves. if isInside nx nz \<and> enemyAt b1 nz nx col
                                then moves @ [(nx, nz)] else moves)
            = (\<lambda>(nx, nz) moves. if isInside nx nz \<and> enemyAt b2 nz nx col
                                then moves @ [(nx, nz)] else moves)"
  proof (intro ext)
    fix a :: "int \<times> int" and m :: "(int \<times> int) list"
    obtain nx nz where a: "a = (nx, nz)" by (cases a)
    have "(isInside nx nz \<and> enemyAt b1 nz nx col) = (isInside nx nz \<and> enemyAt b2 nz nx col)"
      using sameSquares_cell[OF same, of nx nz] by (auto simp: enemyAt_def)
    then show "(case a of (nx, nz) \<Rightarrow> \<lambda>moves. if isInside nx nz \<and> enemyAt b1 nz nx col
                                then moves @ [(nx, nz)] else moves) m
               = (case a of (nx, nz) \<Rightarrow> \<lambda>moves. if isInside nx nz \<and> enemyAt b2 nz nx col
                                then moves @ [(nx, nz)] else moves) m"
      unfolding a by simp
  qed
  have valid: "((if col = White then 6 else 1) = (6::int) \<and> (if col = White then - 1 else 1) = (- 1::int))
               \<or> ((if col = White then 6 else 1) = (1::int) \<and> (if col = White then - 1 else 1) = (1::int))"
    by simp
  show ?thesis
    unfolding pawnMoves_def Let_def by (simp only: c1 c2[OF valid] c3)
qed

lemma generatePseudoMoves_cong:
  assumes same: "sameSquares b1 b2" and src: "isInside x z"
  shows "generatePseudoMoves x z b1 = generatePseudoMoves x z b2"
proof -
  note row = isInside_rows[OF src]
  have cell: "b1 z x = b2 z x" by (rule sameSquares_cell[OF same src])
  show ?thesis
  proof (cases "b2 z x")
    case None
    then show ?thesis using cell row by (simp add: generatePseudoMoves_def at_def)
  next
    case (Some p)
    note s1 = Some[folded cell] and s2 = Some
    show ?thesis
    proof (cases "type p")
      case Pawn
      show ?thesis
        unfolding generatePseudoMoves_pawn_form[where bs = b1, OF row s1 Pawn]
          generatePseudoMoves_pawn_form[where bs = b2, OF row s2 Pawn]
          pawnMoves_cong[OF same src] ..
    next
      case Knight
      show ?thesis
        unfolding generatePseudoMoves_by_type(1)[where bs = b1, OF row s1 Knight]
          generatePseudoMoves_by_type(1)[where bs = b2, OF row s2 Knight]
          stepTo_cong[OF same] ..
    next
      case Bishop
      show ?thesis
        unfolding generatePseudoMoves_by_type(4)[where bs = b1, OF row s1 Bishop]
          generatePseudoMoves_by_type(4)[where bs = b2, OF row s2 Bishop]
        by (rule slides_cong[OF same dirs_nonzero(2)])
    next
      case Rook
      show ?thesis
        unfolding generatePseudoMoves_by_type(3)[where bs = b1, OF row s1 Rook]
          generatePseudoMoves_by_type(3)[where bs = b2, OF row s2 Rook]
        by (rule slides_cong[OF same dirs_nonzero(1)])
    next
      case Queen
      show ?thesis
        unfolding generatePseudoMoves_by_type(5)[where bs = b1, OF row s1 Queen]
          generatePseudoMoves_by_type(5)[where bs = b2, OF row s2 Queen]
        by (rule slides_cong[OF same dirs_nonzero(3)])
    next
      case King
      show ?thesis
        unfolding generatePseudoMoves_by_type(2)[where bs = b1, OF row s1 King]
          generatePseudoMoves_by_type(2)[where bs = b2, OF row s2 King]
          stepTo_cong[OF same] ..
    qed
  qed
qed


lemma filter_loop_cong:
  assumes same: "sameSquares b1 b2" and src: "isInside x z"
    and gen: "set pseudo \<subseteq> genCells x z bs"
  shows "forEachM (\<lambda>(tx, tz) moves.
                     do { let m = \<lparr>fromX = x, fromZ = z, toX = tx, toZ = tz\<rparr>;
                          ok \<leftarrow> isLegalMove b1 m player;
                          Some (if ok then moves @ [m] else moves) })
                  pseudo s
         = forEachM (\<lambda>(tx, tz) moves.
                     do { let m = \<lparr>fromX = x, fromZ = z, toX = tx, toZ = tz\<rparr>;
                          ok \<leftarrow> isLegalMove b2 m player;
                          Some (if ok then moves @ [m] else moves) })
                  pseudo s"
proof (rule forEachM_cong, intro ballI allI)
  fix a s assume "a \<in> set pseudo"
  then have mem: "a \<in> genCells x z bs" using gen by blast
  obtain tx tz where a1: "a = (tx, tz)" by (cases a)
  have a: "a = (tx, tz)" "(tx, tz) \<in> genCells x z bs" using a1 mem by simp_all
  have "isInside tx tz" by (rule genCells_inside[OF src a(2)])
  then have "isLegalMove b1 \<lparr>fromX = x, fromZ = z, toX = tx, toZ = tz\<rparr> player
             = isLegalMove b2 \<lparr>fromX = x, fromZ = z, toX = tx, toZ = tz\<rparr> player"
    using src by (intro isLegalMove_cong[OF same]) simp_all
  then show "(case a of (tx, tz) \<Rightarrow> \<lambda>moves.
                     do { let m = \<lparr>fromX = x, fromZ = z, toX = tx, toZ = tz\<rparr>;
                          ok \<leftarrow> isLegalMove b1 m player;
                          Some (if ok then moves @ [m] else moves) }) s
           = (case a of (tx, tz) \<Rightarrow> \<lambda>moves.
                     do { let m = \<lparr>fromX = x, fromZ = z, toX = tx, toZ = tz\<rparr>;
                          ok \<leftarrow> isLegalMove b2 m player;
                          Some (if ok then moves @ [m] else moves) }) s"
    unfolding a(1) by simp
qed

lemma allLegalMovesFor_cong:
  assumes same: "sameSquares b1 b2"
  shows "allLegalMovesFor b1 player = allLegalMovesFor b2 player"
  unfolding allLegalMovesFor_def
proof (rule forEachM_cong, intro ballI allI)
  fix a s assume "a \<in> set squares"
  then obtain z x where a: "a = (z, x)" "isInside x z" by (auto simp: set_squares)
  have cell: "b1 z x = b2 z x" by (rule sameSquares_cell[OF same a(2)])
  from generatePseudoMoves_total[OF isInside_rows[OF a(2)], of x b2]
  obtain pseudo where ps: "generatePseudoMoves x z b2 = Some pseudo" "set pseudo = genCells x z b2"
    by blast
  have ps1: "generatePseudoMoves x z b1 = Some pseudo"
    using generatePseudoMoves_cong[OF same a(2)] ps(1) by simp
  have sub: "set pseudo \<subseteq> genCells x z b2" using ps(2) by simp
  show "(case a of (z, x) \<Rightarrow> \<lambda>moves.
                 case b1 z x of
                   None \<Rightarrow> Some moves
                 | Some p \<Rightarrow>
                     if color p \<noteq> player then Some moves
                     else do {
                       pseudo \<leftarrow> generatePseudoMoves x z b1;
                       forEachM (\<lambda>(tx, tz) moves.
                                   do { let m = \<lparr>fromX = x, fromZ = z, toX = tx, toZ = tz\<rparr>;
                                        ok \<leftarrow> isLegalMove b1 m player;
                                        Some (if ok then moves @ [m] else moves) })
                                pseudo moves }) s
        = (case a of (z, x) \<Rightarrow> \<lambda>moves.
                 case b2 z x of
                   None \<Rightarrow> Some moves
                 | Some p \<Rightarrow>
                     if color p \<noteq> player then Some moves
                     else do {
                       pseudo \<leftarrow> generatePseudoMoves x z b2;
                       forEachM (\<lambda>(tx, tz) moves.
                                   do { let m = \<lparr>fromX = x, fromZ = z, toX = tx, toZ = tz\<rparr>;
                                        ok \<leftarrow> isLegalMove b2 m player;
                                        Some (if ok then moves @ [m] else moves) })
                                pseudo moves }) s"
    unfolding a(1) prod.case cell ps(1) ps1
    using filter_loop_cong[OF same a(2) sub, of player s]
    by (simp split: option.splits)
qed

lemma opponentMoves_cong:
  assumes same: "sameSquares b1 b2"
  shows "opponentMoves b1 clone = opponentMoves b2 clone"
  unfolding opponentMoves_def
proof (rule forEachM_cong, intro ballI allI)
  fix a s assume "a \<in> set squares"
  then obtain z x where a: "a = (z, x)" "isInside x z" by (auto simp: set_squares)
  from generatePseudoMoves_total[OF isInside_rows[OF a(2)], of x clone]
  obtain pms where ps: "generatePseudoMoves x z clone = Some pms" "set pms = genCells x z clone"
    by blast
  have sub: "set pms \<subseteq> genCells x z clone" using ps(2) by simp
  show "(case a of (z, x) \<Rightarrow> \<lambda>oppMoves.
                 case clone z x of
                   None \<Rightarrow> Some oppMoves
                 | Some p \<Rightarrow>
                     if color p = White then
                       do { pms \<leftarrow> generatePseudoMoves x z clone;
                            forEachM (\<lambda>(tx, tz) oppMoves.
                                        do { let cand = \<lparr>fromX = x, fromZ = z, toX = tx, toZ = tz\<rparr>;
                                             ok \<leftarrow> isLegalMove b1 cand White;
                                             Some (if ok then oppMoves @ [cand] else oppMoves) })
                                     pms oppMoves }
                     else Some oppMoves) s
        = (case a of (z, x) \<Rightarrow> \<lambda>oppMoves.
                 case clone z x of
                   None \<Rightarrow> Some oppMoves
                 | Some p \<Rightarrow>
                     if color p = White then
                       do { pms \<leftarrow> generatePseudoMoves x z clone;
                            forEachM (\<lambda>(tx, tz) oppMoves.
                                        do { let cand = \<lparr>fromX = x, fromZ = z, toX = tx, toZ = tz\<rparr>;
                                             ok \<leftarrow> isLegalMove b2 cand White;
                                             Some (if ok then oppMoves @ [cand] else oppMoves) })
                                     pms oppMoves }
                     else Some oppMoves) s"
    unfolding a(1) prod.case ps(1)
    using filter_loop_cong[OF same a(2) sub, of White s]
    by (simp split: option.splits)
qed

lemma worstFor_cong:
  assumes same: "sameSquares b1 b2"
  shows "worstFor b1 = worstFor b2"
  by (intro ext) (simp add: worstFor_def cloneBoard_cong[OF same] opponentMoves_cong[OF same])

section \<open>The search returns\<close>

definition movable :: "move \<Rightarrow> bool" where
  \<comment> \<open>what \<open>applyMoveOnClone\<close> needs in order to return: both rows exist and the two
      squares differ\<close>
  "movable m = (rowExists (fromZ m) \<and> rowExists (toZ m)
                \<and> (fromX m \<noteq> toX m \<or> fromZ m \<noteq> toZ m))"

lemma forEachM_inv:
  assumes "\<forall>a \<in> set xs. \<forall>s. I s \<longrightarrow> (\<exists>s'. f a s = Some s' \<and> I s')" and "I s"
  shows "\<exists>s'. forEachM f xs s = Some s' \<and> I s'"
  using assms
proof (induction xs arbitrary: s)
  case Nil
  then show ?case by simp
next
  case (Cons a xs)
  from Cons.prems obtain s1 where s1: "f a s = Some s1" "I s1" by auto
  from Cons.IH[of s1] Cons.prems(1) s1(2)
  obtain s2 where "forEachM f xs s1 = Some s2" "I s2" by auto
  with s1(1) show ?case by simp
qed

lemma generated_movable:
  assumes src: "isInside x z" and gen: "(tx, tz) \<in> genCells x z bs"
  shows "movable \<lparr>fromX = x, fromZ = z, toX = tx, toZ = tz\<rparr>"
proof -
  have tgt: "isInside tx tz" by (rule genCells_inside[OF src gen])
  have "pseudoOK \<lparr>fromX = x, fromZ = z, toX = tx, toZ = tz\<rparr> bs False"
    using genCells_iff_pseudoOK[OF src tgt, of bs] gen by simp
  from pseudoOK_moves[OF this] show ?thesis
    using src tgt by (simp add: movable_def isInside_rows)
qed

lemma replies_inner:
  assumes src: "isInside x z" and gen: "set pms \<subseteq> genCells x z clone"
    and inv: "\<forall>om \<in> set s. movable om"
  shows "\<exists>s'. forEachM (\<lambda>(tx, tz) oppMoves.
                          do { let cand = \<lparr>fromX = x, fromZ = z, toX = tx, toZ = tz\<rparr>;
                               ok \<leftarrow> isLegalMove live cand White;
                               Some (if ok then oppMoves @ [cand] else oppMoves) })
                       pms s = Some s' \<and> (\<forall>om \<in> set s'. movable om)"
proof (rule forEachM_inv[where I = "\<lambda>s. \<forall>om \<in> set s. movable om"], intro ballI allI impI)
  fix a s assume a: "a \<in> set pms" and I: "\<forall>om \<in> set s. movable om"
  obtain tx tz where t: "a = (tx, tz)" by (cases a)
  have g: "(tx, tz) \<in> genCells x z clone" using a gen t by blast
  have mv: "movable \<lparr>fromX = x, fromZ = z, toX = tx, toZ = tz\<rparr>"
    by (rule generated_movable[OF src g])
  have "isLegalMove live \<lparr>fromX = x, fromZ = z, toX = tx, toZ = tz\<rparr> White
        = Some (legalOK live \<lparr>fromX = x, fromZ = z, toX = tx, toZ = tz\<rparr> White)"
    using mv by (intro isLegalMove_inRange) (simp_all add: movable_def)
  then show "\<exists>s'. (case a of (tx, tz) \<Rightarrow> \<lambda>oppMoves.
                          do { let cand = \<lparr>fromX = x, fromZ = z, toX = tx, toZ = tz\<rparr>;
                               ok \<leftarrow> isLegalMove live cand White;
                               Some (if ok then oppMoves @ [cand] else oppMoves) }) s = Some s'
                 \<and> (\<forall>om \<in> set s'. movable om)"
    unfolding t using I mv by (simp add: Let_def)
next
  show "\<forall>om \<in> set s. movable om" by (rule inv)
qed

lemma opponentMoves_total:
  "\<exists>oms. opponentMoves live clone = Some oms \<and> (\<forall>om \<in> set oms. movable om)"
  unfolding opponentMoves_def
proof (rule forEachM_inv[where I = "\<lambda>s. \<forall>om \<in> set s. movable om"], intro ballI allI impI)
  fix a s assume "a \<in> set squares" and I: "\<forall>om \<in> set s. movable om"
  then obtain z x where a: "a = (z, x)" "isInside x z" by (auto simp: set_squares)
  from generatePseudoMoves_total[OF isInside_rows[OF a(2)], of x clone]
  obtain pms where ps: "generatePseudoMoves x z clone = Some pms" "set pms = genCells x z clone"
    by blast
  have sub: "set pms \<subseteq> genCells x z clone" using ps(2) by simp
  from replies_inner[OF a(2) sub I, of live] I
  show "\<exists>s'. (case a of (z, x) \<Rightarrow> \<lambda>oppMoves.
                 case clone z x of
                   None \<Rightarrow> Some oppMoves
                 | Some p \<Rightarrow>
                     if color p = White then
                       do { pms \<leftarrow> generatePseudoMoves x z clone;
                            forEachM (\<lambda>(tx, tz) oppMoves.
                                        do { let cand = \<lparr>fromX = x, fromZ = z, toX = tx, toZ = tz\<rparr>;
                                             ok \<leftarrow> isLegalMove live cand White;
                                             Some (if ok then oppMoves @ [cand] else oppMoves) })
                                     pms oppMoves }
                     else Some oppMoves) s = Some s'
             \<and> (\<forall>om \<in> set s'. movable om)"
    unfolding a(1) prod.case ps(1) by (simp split: option.splits)
next
  show "\<forall>om \<in> set []. movable om" by simp
qed

lemma worstFor_total:
  assumes "movable m"
  shows "\<exists>w. worstFor live m = Some w"
proof -
  have c: "applyMoveOnClone (cloneBoard live) m = Some (simulated (cloneBoard live) m)"
    using assms by (intro applyMoveOnClone_inRange) (simp_all add: movable_def)
  from opponentMoves_total[of live "simulated (cloneBoard live) m"]
  obtain oms where oms: "opponentMoves live (simulated (cloneBoard live) m) = Some oms"
    "\<forall>om \<in> set oms. movable om" by blast
  have "\<exists>w. forEachM (\<lambda>om worst.
                           do { c2 \<leftarrow> applyMoveOnClone (cloneBoard (simulated (cloneBoard live) m)) om;
                                Some (jsMax worst (Num (evaluateMaterial c2))) })
                     oms NegInfinity = Some w \<and> True"
  proof (rule forEachM_inv[where I = "\<lambda>s. True"], intro ballI allI impI)
    fix om s assume "om \<in> set oms"
    then have "movable om" using oms(2) by blast
    then have "applyMoveOnClone (cloneBoard (simulated (cloneBoard live) m)) om
               = Some (simulated (cloneBoard (simulated (cloneBoard live) m)) om)"
      by (intro applyMoveOnClone_inRange) (simp_all add: movable_def)
    then show "\<exists>s'. do { c2 \<leftarrow> applyMoveOnClone (cloneBoard (simulated (cloneBoard live) m)) om;
                        Some (jsMax s (Num (evaluateMaterial c2))) } = Some s' \<and> True"
      by simp
  qed simp
  then show ?thesis using oms(1) by (auto simp: worstFor_def c)
qed

lemma bestOf_total:
  assumes "\<forall>m \<in> set moves. movable m"
  shows "\<exists>r. bestOf live moves = Some r"
proof -
  have "\<exists>r. forEachM (\<lambda>m (best, bestScore).
                 do { worst \<leftarrow> worstFor live m;
                      Some (if jsLess worst bestScore then (Some m, worst) else (best, bestScore)) })
              moves (None, Infinity) = Some r \<and> True"
  proof (rule forEachM_inv[where I = "\<lambda>s. True"], intro ballI allI impI)
    fix m and s :: "move option \<times> jsnum" assume "m \<in> set moves"
    then have "movable m" using assms by blast
    from worstFor_total[OF this, of live] obtain w where "worstFor live m = Some w" ..
    then show "\<exists>s'. (case s of (best, bestScore) \<Rightarrow>
                 do { worst \<leftarrow> worstFor live m;
                      Some (if jsLess worst bestScore then (Some m, worst) else (best, bestScore)) }) = Some s' \<and> True"
      by (cases s) simp
  qed simp
  then show ?thesis unfolding bestOf_def by blast
qed

lemma chooseAIMove_total: "\<exists>best. chooseAIMove live = Some best"
proof -
  from allLegalMovesFor_total[of live Black]
  obtain ms where ms: "allLegalMovesFor live Black = Some ms" "set ms = legalMoves live Black"
    by blast
  have "\<forall>m \<in> set ms. movable m"
  proof
    fix m assume "m \<in> set ms"
    then have m: "isInside (fromX m) (fromZ m)" "isInside (toX m) (toZ m)"
      "isLegalMove live m Black = Some True"
      using ms(2) by (simp_all add: legalMoves_eq)
    have rows: "rowExists (fromZ m)" "rowExists (toZ m)"
      using m(1,2) by (simp_all add: isInside_rows)
    have "legalOK live m Black" using isLegalMove_inRange[OF rows, of live Black] m(3) by simp
    then have "pseudoOK m live False" by (simp add: legalOK_def)
    from pseudoOK_moves[OF this] rows show "movable m" by (simp add: movable_def)
  qed
  from bestOf_total[OF this, of live] obtain r where "bestOf live ms = Some r" ..
  then show ?thesis unfolding chooseAIMove_def ms(1) by (cases r) simp
qed

section \<open>The search is deterministic\<close>

definition duelBoard :: board where
  \<comment> \<open>Black: king a8, rook b7.  White: king h1, pawn b2.\<close>
  "duelBoard =
     emptyBoard(0 := (emptyBoard 0)(0 := Some \<lparr>type = King, color = Black\<rparr>),
                1 := (emptyBoard 1)(1 := Some \<lparr>type = Rook, color = Black\<rparr>),
                6 := (emptyBoard 6)(1 := Some \<lparr>type = Pawn, color = White\<rparr>),
                7 := (emptyBoard 7)(7 := Some \<lparr>type = King, color = White\<rparr>))"

definition duelState :: engine where
  "duelState = \<lparr>boardState = duelBoard, currentPlayer = Black, gameState = Playing,
                moveHistory = [], captured = (\<lambda>c. []), statusText = GameInProgress\<rparr>"

definition duelStateLater :: engine where
  \<comment> \<open>the same 64 squares, but another history, other captured lists, another side to
      move, and a property \<open>8\<close> on the row array \<open>boardState[3]\<close>\<close>
  "duelStateLater =
     \<lparr>boardState = duelBoard(3 := (duelBoard 3)(8 := Some \<lparr>type = Queen, color = Black\<rparr>)),
      currentPlayer = White, gameState = Playing,
      moveHistory = [\<lparr>move = \<lparr>fromX = 1, fromZ = 0, toX = 1, toZ = 1\<rparr>,
                      cap = Some \<lparr>type = Knight, color = White\<rparr>, mover = Black\<rparr>],
      captured = (\<lambda>c. if c = White then [Knight] else []),
      statusText = GameInProgress\<rparr>"

lemma duel_choice:
  "chooseAIMove duelBoard = Some (Some \<lparr>fromX = 1, fromZ = 1, toX = 1, toZ = 6\<rparr>)"
  by code_simp

text \<open>
  C9.  The search is deterministic.  \<open>makeBestAIMove\<close> always reaches its choice (nothing
  is thrown and no loop runs on), and that choice, a move or "no move", is a function of
  the piece type and colour on each of the 64 squares and of nothing else: for two states
  whose boards agree on every square of the 8x8 board the search chooses the same move and
  hands it to \<open>performMove\<close>, whatever the history, the captured lists, the phase and the
  side to move of the two states are (the search always moves Black).
\<close>

theorem chooseAIMove_deterministic:
  assumes "\<forall>z x. isInside x z \<longrightarrow> boardState s1 z x = boardState s2 z x"
  shows "\<exists>best. chooseAIMove (boardState s1) = Some best
               \<and> chooseAIMove (boardState s2) = Some best
               \<and> makeBestAIMove s1 = (case best of None \<Rightarrow> Some s1 | Some b \<Rightarrow> performMove s1 b)
               \<and> makeBestAIMove s2 = (case best of None \<Rightarrow> Some s2 | Some b \<Rightarrow> performMove s2 b)"
proof -
  have same: "sameSquares (boardState s1) (boardState s2)"
    using assms by (simp add: sameSquares_def)
  have eq: "chooseAIMove (boardState s1) = chooseAIMove (boardState s2)"
    unfolding chooseAIMove_def bestOf_def worstFor_cong[OF same] allLegalMovesFor_cong[OF same] ..
  from chooseAIMove_total[of "boardState s1"]
  obtain best where best: "chooseAIMove (boardState s1) = Some best" ..
  have "makeBestAIMove s1 = (case best of None \<Rightarrow> Some s1 | Some b \<Rightarrow> performMove s1 b)"
    unfolding makeBestAIMove_def best by simp
  moreover have "makeBestAIMove s2 = (case best of None \<Rightarrow> Some s2 | Some b \<Rightarrow> performMove s2 b)"
    unfolding makeBestAIMove_def eq[symmetric] best by simp
  ultimately show ?thesis using best eq by simp
qed

theorem chooseAIMove_deterministic_witness:
  "chooseAIMove (boardState duelState) = Some (Some \<lparr>fromX = 1, fromZ = 1, toX = 1, toZ = 6\<rparr>)
   \<and> chooseAIMove (boardState duelStateLater) = Some (Some \<lparr>fromX = 1, fromZ = 1, toX = 1, toZ = 6\<rparr>)
   \<and> boardState duelStateLater \<noteq> boardState duelState
   \<and> moveHistory duelStateLater \<noteq> moveHistory duelState
   \<and> currentPlayer duelStateLater \<noteq> currentPlayer duelState"
proof -
  have hyp: "\<forall>z x. isInside x z \<longrightarrow> boardState duelState z x = boardState duelStateLater z x"
    by (simp add: duelState_def duelStateLater_def isInside_def)
  have differ: "boardState duelStateLater 3 8 \<noteq> boardState duelState 3 8"
    by (simp add: duelState_def duelStateLater_def duelBoard_def emptyBoard_def)
  have "boardState duelStateLater \<noteq> boardState duelState"
    using differ by metis
  moreover have "chooseAIMove (boardState duelState) = Some (Some \<lparr>fromX = 1, fromZ = 1, toX = 1, toZ = 6\<rparr>)"
    using duel_choice by (simp add: duelState_def)
  ultimately show ?thesis
    using chooseAIMove_deterministic[OF hyp]
    by (auto simp: duelState_def duelStateLater_def)
qed

end
